theory Spec2Isabelle
  imports Complex_Main "HOL-Library.Signed_Division" "HOL-Library.Multiset" "HOL-Library.Word"
begin

unbundle bit_operations_syntax

section \<open>Messages of the API module\<close>

text \<open>
  The persistence engine of \<^verbatim>\<open>internal/database/sqldatabase/sqldatabase.go\<close>
  exchanges protobuf messages of the module \<^verbatim>\<open>api.safer.place\<close> with its
  callers. That module is a dependency (see \<^verbatim>\<open>go.mod\<close>); its declarations are
  not part of the repository, so the message types below are written down from the
  fields the engine touches and from the data model of the specification.
\<close>

text \<open>
  Modelled from the spec: the enumeration \<^verbatim>\<open>incident.Resolution\<close> and its generated
  tables \<^verbatim>\<open>String()\<close> and \<^verbatim>\<open>Resolution_value\<close> are declared in the API
  module. The specification lists the four states and says that they are persisted as
  their canonical enumerated-name strings, e.g. \<^verbatim>\<open>RESOLUTION_ACCEPTED\<close>; the
  unspecified state is the zero value of the enumeration.
\<close>

datatype Resolution =
    Resolution_RESOLUTION_UNSPECIFIED
  | Resolution_RESOLUTION_ACCEPTED
  | Resolution_RESOLUTION_ALERTED
  | Resolution_RESOLUTION_REJECTED

fun Resolution_String :: "Resolution \<Rightarrow> string" where
  "Resolution_String Resolution_RESOLUTION_UNSPECIFIED = ''RESOLUTION_UNSPECIFIED''"
| "Resolution_String Resolution_RESOLUTION_ACCEPTED = ''RESOLUTION_ACCEPTED''"
| "Resolution_String Resolution_RESOLUTION_ALERTED = ''RESOLUTION_ALERTED''"
| "Resolution_String Resolution_RESOLUTION_REJECTED = ''RESOLUTION_REJECTED''"

definition Resolution_value :: "string \<rightharpoonup> Resolution" where
  "Resolution_value =
     map_of [(''RESOLUTION_UNSPECIFIED'', Resolution_RESOLUTION_UNSPECIFIED),
             (''RESOLUTION_ACCEPTED'', Resolution_RESOLUTION_ACCEPTED),
             (''RESOLUTION_ALERTED'', Resolution_RESOLUTION_ALERTED),
             (''RESOLUTION_REJECTED'', Resolution_RESOLUTION_REJECTED)]"

text \<open>
  \<^verbatim>\<open>incident.Resolution(incident.Resolution_value[resolution])\<close>: indexing a Go map
  with a key it does not hold yields the zero value of the element type, here the
  number 0, which is the unspecified state.
\<close>

definition Resolution_of_label :: "string \<Rightarrow> Resolution" where
  "Resolution_of_label s =
     (case Resolution_value s of
        None \<Rightarrow> Resolution_RESOLUTION_UNSPECIFIED
      | Some r \<Rightarrow> r)"

record Timestamp =
  Seconds :: int
  Nanos :: int

record Coordinates =
  Lat :: real
  Lon :: real

text \<open>
  Modelled from the spec: the message \<^verbatim>\<open>incident.Comment\<close> is declared in the API
  module. The engine reads and writes its fields \<^verbatim>\<open>Timestamp\<close>,
  \<^verbatim>\<open>AuthorId\<close> and \<^verbatim>\<open>Message\<close>; the specification's data model gives a
  comment a resolution snapshot as well, which is the field \<open>Comment_Resolution\<close>.
\<close>

record Comment =
  Comment_Timestamp :: int
  Comment_AuthorId :: string
  Comment_Message :: string
  Comment_Resolution :: Resolution

record Incident =
  Id :: string
  Timestamp :: "Timestamp option"
  Description :: string
  Coordinates :: "Coordinates option"
  Resolution :: Resolution
  ImageId :: string
  ReviewerComments :: "Comment list"

text \<open>
  Modelled from the spec: the message \<^verbatim>\<open>viewer.Region\<close> is declared in the API
  module. The specification says that a region is supplied in a scaled integer
  encoding, so the four bounds are integers and \<^verbatim>\<open>region.North/100\<close> is Go's
  integer division, which truncates towards zero (\<open>sdiv\<close>).
\<close>

record Region =
  North :: int
  South :: int
  West :: int
  East :: int

section \<open>Errors\<close>

text \<open>
  The sentinel errors of the packages \<^verbatim>\<open>database\<close> and \<^verbatim>\<open>database/sql\<close>, the
  failures of the store that the schema makes possible (a violated primary key, a NULL
  scanned into a Go string), \<^verbatim>\<open>errors.New\<close>, the wrapping of
  \<^verbatim>\<open>fmt.Errorf("...: %w", err)\<close>, and the panic of a nil pointer dereference.
\<close>

datatype error =
    ErrAlreadyExists
  | ErrDoesNotExist
  | ErrNoRows
  | ErrConstraintPrimaryKey
  | ErrScanNull
  | errors_New string
  | fmt_Errorf string error
  | PanicNilDereference

fun errors_Is :: "error \<Rightarrow> error \<Rightarrow> bool" where
  "errors_Is (fmt_Errorf msg err) target =
     (fmt_Errorf msg err = target \<or> errors_Is err target)"
| "errors_Is err target = (err = target)"

section \<open>The relational store\<close>

text \<open>
  The three relations of \<^verbatim>\<open>createTableQuery\<close>. A table is the list of its rows in
  insertion order. Every column is \<^verbatim>\<open>NOT NULL\<close> except
  \<^verbatim>\<open>incidents.description\<close>, which may hold NULL (\<open>None\<close>). Latitude and
  longitude are the real numbers that the stored floating-point values denote; the engine
  only compares them.
\<close>

record incident_row =
  i_id :: string
  i_timestamp :: int
  i_description :: "string option"
  i_lat :: real
  i_lon :: real
  i_resolution :: string
  i_image :: string

record comment_row =
  c_id :: string
  c_incident_id :: string
  c_timestamp :: int
  c_author :: string
  c_comment :: string
  c_resolution :: string

record session_row =
  s_id :: string
  s_expiry :: int

record database =
  incidents :: "incident_row list"
  comments :: "comment_row list"
  sessions :: "session_row list"

text \<open>\<^verbatim>\<open>QueryRow(...).Scan\<close>: the first row of the result, or \<^verbatim>\<open>sql.ErrNoRows\<close>.\<close>

fun QueryRow :: "'a list \<Rightarrow> error + 'a" where
  "QueryRow [] = Inl ErrNoRows"
| "QueryRow (r # rs) = Inr r"

text \<open>\<^verbatim>\<open>SELECT id FROM incidents WHERE id=?\<close>\<close>

definition hasIncidentStmt :: "database \<Rightarrow> string \<Rightarrow> string list" where
  "hasIncidentStmt tx ident = map i_id (filter (\<lambda>r. i_id r = ident) (incidents tx))"

text \<open>\<^verbatim>\<open>saveIncidentQuery\<close>: \<^verbatim>\<open>id\<close> is the primary key of \<^verbatim>\<open>incidents\<close>.\<close>

definition saveIncidentStmt :: "database \<Rightarrow> incident_row \<Rightarrow> error + database" where
  "saveIncidentStmt tx row =
     (if i_id row \<in> set (map i_id (incidents tx)) then Inl ErrConstraintPrimaryKey
      else Inr (tx\<lparr>incidents := incidents tx @ [row]\<rparr>))"

text \<open>\<^verbatim>\<open>updateResolutionQuery\<close>: \<^verbatim>\<open>UPDATE incidents SET resolution=? WHERE id=?\<close>\<close>

definition updateResolutionStmt :: "database \<Rightarrow> string \<Rightarrow> string \<Rightarrow> database" where
  "updateResolutionStmt tx res ident =
     tx\<lparr>incidents :=
          map (\<lambda>r. if i_id r = ident then r\<lparr>i_resolution := res\<rparr> else r) (incidents tx)\<rparr>"

text \<open>\<^verbatim>\<open>saveCommentQuery\<close>: \<^verbatim>\<open>id\<close> is the primary key of \<^verbatim>\<open>comments\<close>.\<close>

definition saveCommentStmt :: "database \<Rightarrow> comment_row \<Rightarrow> error + database" where
  "saveCommentStmt tx row =
     (if c_id row \<in> set (map c_id (comments tx)) then Inl ErrConstraintPrimaryKey
      else Inr (tx\<lparr>comments := comments tx @ [row]\<rparr>))"

text \<open>\<^verbatim>\<open>viewIncidentQuery\<close> and \<^verbatim>\<open>viewCommentsQuery\<close>\<close>

definition viewIncidentStmt :: "database \<Rightarrow> string \<Rightarrow> incident_row list" where
  "viewIncidentStmt tx ident = filter (\<lambda>r. i_id r = ident) (incidents tx)"

definition viewCommentsStmt :: "database \<Rightarrow> string \<Rightarrow> comment_row list" where
  "viewCommentsStmt tx ident = filter (\<lambda>r. c_incident_id r = ident) (comments tx)"

text \<open>The primary keys of the schema, as an invariant of the store.\<close>

definition primary_keys :: "database \<Rightarrow> bool" where
  "primary_keys db \<longleftrightarrow>
     distinct (map i_id (incidents db)) \<and>
     distinct (map c_id (comments db)) \<and>
     distinct (map s_id (sessions db))"

section \<open>Incident lifecycle\<close>

definition hasIncident :: "database \<Rightarrow> string \<Rightarrow> error + bool" where
  "hasIncident tx ident =
     (case QueryRow (hasIncidentStmt tx ident) of
        Inl err \<Rightarrow>
          (if errors_Is err ErrNoRows then Inr False
           else Inl (fmt_Errorf ''unable to check for existance of incident'' err))
      | Inr existingID \<Rightarrow> Inr (ident = existingID))"

text \<open>
  A mutating operation returns the store it leaves behind and its error (\<open>None\<close> is
  Go's \<^verbatim>\<open>nil\<close>). The statements run on the transaction \<open>tx\<close>; a return before
  \<^verbatim>\<open>tx.Commit()\<close> runs the deferred \<^verbatim>\<open>tx.Rollback()\<close>, which leaves the
  store \<open>db\<close> as it was when the transaction began.
\<close>

definition SaveIncident :: "database \<Rightarrow> Incident \<Rightarrow> database \<times> error option" where
  "SaveIncident db inc =
     (let tx = db in
      case hasIncident tx (Id inc) of
        Inl err \<Rightarrow> (db, Some (fmt_Errorf ''unable to check does the incident exist'' err))
      | Inr exists \<Rightarrow>
          if exists then (db, Some ErrAlreadyExists)
          else
            (case Timestamp inc of
               None \<Rightarrow> (db, Some PanicNilDereference)
             | Some ts \<Rightarrow>
                 (case Coordinates inc of
                    None \<Rightarrow> (db, Some PanicNilDereference)
                  | Some co \<Rightarrow>
                      (case saveIncidentStmt tx
                              \<lparr>i_id = Id inc,
                               i_timestamp = Seconds ts,
                               i_description = Some (Description inc),
                               i_lat = Lat co,
                               i_lon = Lon co,
                               i_resolution = Resolution_String (Resolution inc),
                               i_image = ImageId inc\<rparr> of
                         Inl err \<Rightarrow> (db, Some (fmt_Errorf ''unable to save incident'' err))
                       | Inr tx' \<Rightarrow> (tx', None)))))"

text \<open>
  \<^verbatim>\<open>uuid.New().String()\<close> draws the comment identifier at random; the model takes
  the drawn identifier as the argument \<open>uuid\<close>.
\<close>

definition SaveReview ::
  "database \<Rightarrow> string \<Rightarrow> string \<Rightarrow> Resolution \<Rightarrow> Comment \<Rightarrow> database \<times> error option" where
  "SaveReview db uuid ident res comment =
     (let tx = db in
      case hasIncident tx ident of
        Inl err \<Rightarrow> (db, Some (fmt_Errorf ''unable to check does the incident exist'' err))
      | Inr exists \<Rightarrow>
          if \<not> exists then (db, Some ErrDoesNotExist)
          else
            (let tx1 = updateResolutionStmt tx (Resolution_String res) ident in
             case saveCommentStmt tx1
                     \<lparr>c_id = uuid,
                      c_incident_id = ident,
                      c_timestamp = Comment_Timestamp comment,
                      c_author = Comment_AuthorId comment,
                      c_comment = Comment_Message comment,
                      c_resolution = Resolution_String res\<rparr> of
               Inl err \<Rightarrow> (db, Some (fmt_Errorf ''unable to save comment'' err))
             | Inr tx2 \<Rightarrow> (tx2, None)))"

section \<open>The library routine \<^verbatim>\<open>sort.Sort\<close>\<close>

text \<open>
  \<^verbatim>\<open>ViewIncident\<close> orders the comments with \<^verbatim>\<open>sort.Sort\<close> of Go's standard
  library. The routine is transcribed here from the library's \<^verbatim>\<open>sort\<close> package as
  of Go 1.20, the version that \<^verbatim>\<open>go.mod\<close> names: a pattern-defeating quicksort
  that uses insertion sort on ranges of at most twelve elements and falls back to heap
  sort after too many unbalanced partitions. The slice is a list, \<^verbatim>\<open>data.Less(i, j)\<close>
  is \<open>lessf (data ! i) (data ! j)\<close> and \<^verbatim>\<open>data.Swap(i, j)\<close> is \<open>Swap data i j\<close>.
  Go's \<^verbatim>\<open>int\<close> and \<^verbatim>\<open>uint\<close> values are natural numbers, except the two
  cursors of the partition loops, which are integers, and the state of the random
  generator, which is a 64-bit word; every \<^verbatim>\<open>for\<close> loop is a recursive function of
  its loop variables. The last argument of \<open>breakPatterns_loop\<close> counts the three
  rounds of its loop, which exchange the middle candidate of \<open>choosePivot\<close> and its
  two neighbours with elements at pseudo-random places of the range; the properties
  proved of the routine below use of these exchanges only that they stay inside the
  range.
\<close>

definition Swap :: "'a list \<Rightarrow> nat \<Rightarrow> nat \<Rightarrow> 'a list" where
  "Swap data i j = data[i := data ! j, j := data ! i]"

function insertionSort_inner :: "('a \<Rightarrow> 'a \<Rightarrow> bool) \<Rightarrow> 'a list \<Rightarrow> nat \<Rightarrow> nat \<Rightarrow> 'a list" where
  "insertionSort_inner lessf data a j =
     (if j > a \<and> lessf (data ! j) (data ! (j - 1))
      then insertionSort_inner lessf (Swap data j (j - 1)) a (j - 1)
      else data)"
  by pat_completeness auto
termination
  by (relation "measure (\<lambda>(lessf, data, a, j). j)") auto

declare insertionSort_inner.simps [simp del]

function insertionSort_outer :: "('a \<Rightarrow> 'a \<Rightarrow> bool) \<Rightarrow> 'a list \<Rightarrow> nat \<Rightarrow> nat \<Rightarrow> nat \<Rightarrow> 'a list" where
  "insertionSort_outer lessf data a b i =
     (if i < b
      then insertionSort_outer lessf (insertionSort_inner lessf data a i) a b (i + 1)
      else data)"
  by pat_completeness auto
termination
  by (relation "measure (\<lambda>(lessf, data, a, b, i). b - i)") auto

declare insertionSort_outer.simps [simp del]

definition insertionSort :: "('a \<Rightarrow> 'a \<Rightarrow> bool) \<Rightarrow> 'a list \<Rightarrow> nat \<Rightarrow> nat \<Rightarrow> 'a list" where
  "insertionSort lessf data a b = insertionSort_outer lessf data a b (a + 1)"

function siftDown_loop :: "('a \<Rightarrow> 'a \<Rightarrow> bool) \<Rightarrow> 'a list \<Rightarrow> nat \<Rightarrow> nat \<Rightarrow> nat \<Rightarrow> 'a list" where
  "siftDown_loop lessf data rt hi first =
     (let child = 2 * rt + 1 in
      if child \<ge> hi then data
      else
        let child = (if child + 1 < hi \<and> lessf (data ! (first + child)) (data ! (first + child + 1))
                     then child + 1 else child) in
        if \<not> lessf (data ! (first + rt)) (data ! (first + child)) then data
        else siftDown_loop lessf (Swap data (first + rt) (first + child)) child hi first)"
  by pat_completeness auto
termination
  by (relation "measure (\<lambda>(lessf, data, rt, hi, first). hi - rt)") (auto simp: Let_def)

declare siftDown_loop.simps [simp del]

definition siftDown :: "('a \<Rightarrow> 'a \<Rightarrow> bool) \<Rightarrow> 'a list \<Rightarrow> nat \<Rightarrow> nat \<Rightarrow> nat \<Rightarrow> 'a list" where
  "siftDown lessf data lo hi first = siftDown_loop lessf data lo hi first"

function heapSort_build :: "('a \<Rightarrow> 'a \<Rightarrow> bool) \<Rightarrow> 'a list \<Rightarrow> nat \<Rightarrow> nat \<Rightarrow> nat \<Rightarrow> 'a list" where
  "heapSort_build lessf data i hi first =
     (let data = siftDown lessf data i hi first in
      if i = 0 then data else heapSort_build lessf data (i - 1) hi first)"
  by pat_completeness auto
termination
  by (relation "measure (\<lambda>(lessf, data, i, hi, first). i)") auto

declare heapSort_build.simps [simp del]

function heapSort_pop :: "('a \<Rightarrow> 'a \<Rightarrow> bool) \<Rightarrow> 'a list \<Rightarrow> nat \<Rightarrow> nat \<Rightarrow> nat \<Rightarrow> 'a list" where
  "heapSort_pop lessf data i lo first =
     (let data = Swap data first (first + i);
          data = siftDown lessf data lo i first in
      if i = 0 then data else heapSort_pop lessf data (i - 1) lo first)"
  by pat_completeness auto
termination
  by (relation "measure (\<lambda>(lessf, data, i, lo, first). i)") auto

declare heapSort_pop.simps [simp del]

definition heapSort :: "('a \<Rightarrow> 'a \<Rightarrow> bool) \<Rightarrow> 'a list \<Rightarrow> nat \<Rightarrow> nat \<Rightarrow> 'a list" where
  "heapSort lessf data a b =
     (let first = a; lo = 0; hi = b - a;
          data = heapSort_build lessf data ((hi - 1) div 2) hi first
      in if hi = 0 then data else heapSort_pop lessf data (hi - 1) lo first)"

function partition_up :: "('a \<Rightarrow> 'a \<Rightarrow> bool) \<Rightarrow> 'a list \<Rightarrow> nat \<Rightarrow> int \<Rightarrow> int \<Rightarrow> int" where
  "partition_up lessf data a i j =
     (if i \<le> j \<and> lessf (data ! nat i) (data ! a) then partition_up lessf data a (i + 1) j else i)"
  by pat_completeness auto
termination
  by (relation "measure (\<lambda>(lessf, data, a, i, j). nat (j + 1 - i))") auto

declare partition_up.simps [simp del]

function partition_down :: "('a \<Rightarrow> 'a \<Rightarrow> bool) \<Rightarrow> 'a list \<Rightarrow> nat \<Rightarrow> int \<Rightarrow> int \<Rightarrow> int" where
  "partition_down lessf data a i j =
     (if i \<le> j \<and> \<not> lessf (data ! nat j) (data ! a) then partition_down lessf data a i (j - 1) else j)"
  by pat_completeness auto
termination
  by (relation "measure (\<lambda>(lessf, data, a, i, j). nat (j + 1 - i))") auto

declare partition_down.simps [simp del]

lemma partition_up_ge: "i \<le> partition_up lessf data a i j"
  by (induction lessf data a i j rule: partition_up.induct)
     (subst partition_up.simps, auto)

lemma partition_down_le: "partition_down lessf data a i j \<le> j"
  by (induction lessf data a i j rule: partition_down.induct)
     (subst partition_down.simps, auto)

function partition_loop :: "('a \<Rightarrow> 'a \<Rightarrow> bool) \<Rightarrow> 'a list \<Rightarrow> nat \<Rightarrow> int \<Rightarrow> int \<Rightarrow> 'a list \<times> int" where
  "partition_loop lessf data a i j =
     (let i = partition_up lessf data a i j;
          j = partition_down lessf data a i j
      in if i > j then (data, j)
         else partition_loop lessf (Swap data (nat i) (nat j)) a (i + 1) (j - 1))"
  by pat_completeness auto
termination
proof (relation "measure (\<lambda>(lessf, data, a, i, j). nat (j + 1 - i))", goal_cases)
  case 1
  show ?case by simp
next
  case (2 lessf data a i j x xa)
  have "i \<le> x" using 2(1) partition_up_ge by metis
  moreover have "xa \<le> j" using 2(2) partition_down_le by metis
  ultimately show ?case using 2(3) by auto
qed

declare partition_loop.simps [simp del]

definition partition :: "('a \<Rightarrow> 'a \<Rightarrow> bool) \<Rightarrow> 'a list \<Rightarrow> nat \<Rightarrow> nat \<Rightarrow> nat \<Rightarrow> 'a list \<times> nat \<times> bool" where
  "partition lessf data a b pivot =
     (let data = Swap data a pivot;
          i = int a + 1; j = int b - 1;
          i = partition_up lessf data a i j;
          j = partition_down lessf data a i j
      in if i > j then (Swap data (nat j) a, nat j, True)
         else
           let data = Swap data (nat i) (nat j);
               i = i + 1; j = j - 1;
               (data, j) = partition_loop lessf data a i j
           in (Swap data (nat j) a, nat j, False))"

function partitionEqual_up :: "('a \<Rightarrow> 'a \<Rightarrow> bool) \<Rightarrow> 'a list \<Rightarrow> nat \<Rightarrow> int \<Rightarrow> int \<Rightarrow> int" where
  "partitionEqual_up lessf data a i j =
     (if i \<le> j \<and> \<not> lessf (data ! a) (data ! nat i) then partitionEqual_up lessf data a (i + 1) j else i)"
  by pat_completeness auto
termination
  by (relation "measure (\<lambda>(lessf, data, a, i, j). nat (j + 1 - i))") auto

declare partitionEqual_up.simps [simp del]

function partitionEqual_down :: "('a \<Rightarrow> 'a \<Rightarrow> bool) \<Rightarrow> 'a list \<Rightarrow> nat \<Rightarrow> int \<Rightarrow> int \<Rightarrow> int" where
  "partitionEqual_down lessf data a i j =
     (if i \<le> j \<and> lessf (data ! a) (data ! nat j) then partitionEqual_down lessf data a i (j - 1) else j)"
  by pat_completeness auto
termination
  by (relation "measure (\<lambda>(lessf, data, a, i, j). nat (j + 1 - i))") auto

declare partitionEqual_down.simps [simp del]

lemma partitionEqual_up_ge: "i \<le> partitionEqual_up lessf data a i j"
  by (induction lessf data a i j rule: partitionEqual_up.induct)
     (subst partitionEqual_up.simps, auto)

lemma partitionEqual_down_le: "partitionEqual_down lessf data a i j \<le> j"
  by (induction lessf data a i j rule: partitionEqual_down.induct)
     (subst partitionEqual_down.simps, auto)

function partitionEqual_loop :: "('a \<Rightarrow> 'a \<Rightarrow> bool) \<Rightarrow> 'a list \<Rightarrow> nat \<Rightarrow> int \<Rightarrow> int \<Rightarrow> 'a list \<times> int" where
  "partitionEqual_loop lessf data a i j =
     (let i = partitionEqual_up lessf data a i j;
          j = partitionEqual_down lessf data a i j
      in if i > j then (data, i)
         else partitionEqual_loop lessf (Swap data (nat i) (nat j)) a (i + 1) (j - 1))"
  by pat_completeness auto
termination
proof (relation "measure (\<lambda>(lessf, data, a, i, j). nat (j + 1 - i))", goal_cases)
  case 1
  show ?case by simp
next
  case (2 lessf data a i j x xa)
  have "i \<le> x" using 2(1) partitionEqual_up_ge by metis
  moreover have "xa \<le> j" using 2(2) partitionEqual_down_le by metis
  ultimately show ?case using 2(3) by auto
qed

declare partitionEqual_loop.simps [simp del]

definition partitionEqual :: "('a \<Rightarrow> 'a \<Rightarrow> bool) \<Rightarrow> 'a list \<Rightarrow> nat \<Rightarrow> nat \<Rightarrow> nat \<Rightarrow> 'a list \<times> nat" where
  "partitionEqual lessf data a b pivot =
     (let data = Swap data a pivot;
          i = int a + 1; j = int b - 1;
          (data, i) = partitionEqual_loop lessf data a i j
      in (data, nat i))"

function partialInsertionSort_scan :: "('a \<Rightarrow> 'a \<Rightarrow> bool) \<Rightarrow> 'a list \<Rightarrow> nat \<Rightarrow> nat \<Rightarrow> nat" where
  "partialInsertionSort_scan lessf data i b =
     (if i < b \<and> \<not> lessf (data ! i) (data ! (i - 1))
      then partialInsertionSort_scan lessf data (i + 1) b else i)"
  by pat_completeness auto
termination
  by (relation "measure (\<lambda>(lessf, data, i, b). b - i)") auto

declare partialInsertionSort_scan.simps [simp del]

function partialInsertionSort_left :: "('a \<Rightarrow> 'a \<Rightarrow> bool) \<Rightarrow> 'a list \<Rightarrow> nat \<Rightarrow> 'a list" where
  "partialInsertionSort_left lessf data j =
     (if j \<ge> 1
      then (if \<not> lessf (data ! j) (data ! (j - 1)) then data
            else partialInsertionSort_left lessf (Swap data j (j - 1)) (j - 1))
      else data)"
  by pat_completeness auto
termination
  by (relation "measure (\<lambda>(lessf, data, j). j)") auto

declare partialInsertionSort_left.simps [simp del]

function partialInsertionSort_right :: "('a \<Rightarrow> 'a \<Rightarrow> bool) \<Rightarrow> 'a list \<Rightarrow> nat \<Rightarrow> nat \<Rightarrow> 'a list" where
  "partialInsertionSort_right lessf data j b =
     (if j < b
      then (if \<not> lessf (data ! j) (data ! (j - 1)) then data
            else partialInsertionSort_right lessf (Swap data j (j - 1)) (j + 1) b)
      else data)"
  by pat_completeness auto
termination
  by (relation "measure (\<lambda>(lessf, data, j, b). b - j)") auto

declare partialInsertionSort_right.simps [simp del]

definition maxSteps :: nat where "maxSteps = 5"
definition shortestShifting :: nat where "shortestShifting = 50"

function partialInsertionSort_loop ::
  "('a \<Rightarrow> 'a \<Rightarrow> bool) \<Rightarrow> 'a list \<Rightarrow> nat \<Rightarrow> nat \<Rightarrow> nat \<Rightarrow> nat \<Rightarrow> 'a list \<times> bool" where
  "partialInsertionSort_loop lessf data a b i j =
     (if j < maxSteps then
        (let i = partialInsertionSort_scan lessf data i b in
         if i = b then (data, True)
         else if b - a < shortestShifting then (data, False)
         else
           let data = Swap data i (i - 1);
               data = (if i - a \<ge> 2 then partialInsertionSort_left lessf data (i - 1) else data);
               data = (if b - i \<ge> 2 then partialInsertionSort_right lessf data (i + 1) b else data)
           in partialInsertionSort_loop lessf data a b i (j + 1))
      else (data, False))"
  by pat_completeness auto
termination
  by (relation "measure (\<lambda>(lessf, data, a, b, i, j). maxSteps - j)") auto

declare partialInsertionSort_loop.simps [simp del]

definition partialInsertionSort :: "('a \<Rightarrow> 'a \<Rightarrow> bool) \<Rightarrow> 'a list \<Rightarrow> nat \<Rightarrow> nat \<Rightarrow> 'a list \<times> bool" where
  "partialInsertionSort lessf data a b = partialInsertionSort_loop lessf data a b (a + 1) 0"

fun bits_Len :: "nat \<Rightarrow> nat" where
  "bits_Len n = (if n = 0 then 0 else Suc (bits_Len (n div 2)))"

declare bits_Len.simps [simp del]

definition xorshift_Next :: "64 word \<Rightarrow> 64 word" where
  "xorshift_Next r =
     (let r = r XOR push_bit 13 r;
          r = r XOR drop_bit 17 r;
          r = r XOR push_bit 5 r
      in r)"

definition nextPowerOfTwo :: "nat \<Rightarrow> nat" where
  "nextPowerOfTwo len = (let shift = bits_Len len in push_bit shift 1)"

fun breakPatterns_loop :: "'a list \<Rightarrow> nat \<Rightarrow> nat \<Rightarrow> 64 word \<Rightarrow> nat \<Rightarrow> nat \<Rightarrow> nat \<Rightarrow> nat \<Rightarrow> 'a list" where
  "breakPatterns_loop data a len random modulus idx i 0 = data"
| "breakPatterns_loop data a len random modulus idx i (Suc n) =
     (let random = xorshift_Next random;
          other = unat random AND (modulus - 1);
          other = (if other \<ge> len then other - len else other);
          data = Swap data (idx + i) (a + other)
      in breakPatterns_loop data a len random modulus idx (i + 1) n)"

definition breakPatterns :: "'a list \<Rightarrow> nat \<Rightarrow> nat \<Rightarrow> 'a list" where
  "breakPatterns data a b =
     (let len = b - a in
      if len \<ge> 8 then
        (let random = (word_of_nat len :: 64 word);
             modulus = nextPowerOfTwo len;
             idx = a + (len div 4) * 2 - 1
         in breakPatterns_loop data a len random modulus idx 0 3)
      else data)"

datatype sortedHint = unknownHint | increasingHint | decreasingHint

definition order2 :: "('a \<Rightarrow> 'a \<Rightarrow> bool) \<Rightarrow> 'a list \<Rightarrow> nat \<Rightarrow> nat \<Rightarrow> nat \<Rightarrow> nat \<times> nat \<times> nat" where
  "order2 lessf data a b swaps =
     (if lessf (data ! b) (data ! a) then (b, a, swaps + 1) else (a, b, swaps))"

definition median :: "('a \<Rightarrow> 'a \<Rightarrow> bool) \<Rightarrow> 'a list \<Rightarrow> nat \<Rightarrow> nat \<Rightarrow> nat \<Rightarrow> nat \<Rightarrow> nat \<times> nat" where
  "median lessf data a b c swaps =
     (let (a, b, swaps) = order2 lessf data a b swaps;
          (b, c, swaps) = order2 lessf data b c swaps;
          (a, b, swaps) = order2 lessf data a b swaps
      in (b, swaps))"

definition medianAdjacent :: "('a \<Rightarrow> 'a \<Rightarrow> bool) \<Rightarrow> 'a list \<Rightarrow> nat \<Rightarrow> nat \<Rightarrow> nat \<times> nat" where
  "medianAdjacent lessf data a swaps = median lessf data (a - 1) a (a + 1) swaps"

definition shortestNinther :: nat where "shortestNinther = 50"
definition maxSwaps :: nat where "maxSwaps = 4 * 3"

definition choosePivot :: "('a \<Rightarrow> 'a \<Rightarrow> bool) \<Rightarrow> 'a list \<Rightarrow> nat \<Rightarrow> nat \<Rightarrow> nat \<times> sortedHint" where
  "choosePivot lessf data a b =
     (let l = b - a;
          swaps = 0;
          i = a + l div 4 * 1;
          j = a + l div 4 * 2;
          k = a + l div 4 * 3;
          (j, swaps) =
            (if l \<ge> 8 then
               (let (i, j, k, swaps) =
                      (if l \<ge> shortestNinther then
                         (let (i, swaps) = medianAdjacent lessf data i swaps;
                              (j, swaps) = medianAdjacent lessf data j swaps;
                              (k, swaps) = medianAdjacent lessf data k swaps
                          in (i, j, k, swaps))
                       else (i, j, k, swaps))
                in median lessf data i j k swaps)
             else (j, swaps))
      in if swaps = 0 then (j, increasingHint)
         else if swaps = maxSwaps then (j, decreasingHint)
         else (j, unknownHint))"

function reverseRange_loop :: "'a list \<Rightarrow> nat \<Rightarrow> nat \<Rightarrow> 'a list" where
  "reverseRange_loop data i j =
     (if i < j then reverseRange_loop (Swap data i j) (i + 1) (j - 1) else data)"
  by pat_completeness auto
termination
  by (relation "measure (\<lambda>(data, i, j). j - i)") auto

declare reverseRange_loop.simps [simp del]

definition reverseRange :: "'a list \<Rightarrow> nat \<Rightarrow> nat \<Rightarrow> 'a list" where
  "reverseRange data a b = reverseRange_loop data a (b - 1)"

definition maxInsertion :: nat where "maxInsertion = 12"

function pdqsort ::
  "('a \<Rightarrow> 'a \<Rightarrow> bool) \<Rightarrow> 'a list \<Rightarrow> nat \<Rightarrow> nat \<Rightarrow> nat \<Rightarrow> bool \<Rightarrow> bool \<Rightarrow> 'a list" where
  "pdqsort lessf data a b limit wasBalanced wasPartitioned =
     (let len = b - a in
      if len \<le> maxInsertion then insertionSort lessf data a b
      else if limit = 0 then heapSort lessf data a b
      else
        let (data, limit) =
              (if \<not> wasBalanced then (breakPatterns data a b, limit - 1) else (data, limit));
            (pivot, hint) = choosePivot lessf data a b;
            (data, pivot, hint) =
              (if hint = decreasingHint
               then (reverseRange data a b, (b - 1) - (pivot - a), increasingHint)
               else (data, pivot, hint));
            (data, sorted) =
              (if wasBalanced \<and> wasPartitioned \<and> hint = increasingHint
               then partialInsertionSort lessf data a b
               else (data, False))
        in
          if sorted then data
          else if a > 0 \<and> \<not> lessf (data ! (a - 1)) (data ! pivot) then
            (let (data, mid) = partitionEqual lessf data a b pivot
             in pdqsort lessf data mid b limit wasBalanced wasPartitioned)
          else
            (let (data, mid, alreadyPartitioned) = partition lessf data a b pivot;
                 leftLen = mid - a;
                 rightLen = b - mid;
                 balanceThreshold = len div 8
             in if leftLen < rightLen then
                  pdqsort lessf (pdqsort lessf data a mid limit True True)
                    (mid + 1) b limit (leftLen \<ge> balanceThreshold) alreadyPartitioned
                else
                  pdqsort lessf (pdqsort lessf data (mid + 1) b limit True True)
                    a mid limit (rightLen \<ge> balanceThreshold) alreadyPartitioned))"
  by pat_completeness auto

lemma partition_up_le: "i \<le> j + 1 \<Longrightarrow> partition_up lessf data a i j \<le> j + 1"
  by (induction lessf data a i j rule: partition_up.induct)
     (subst partition_up.simps, auto)

lemma partition_down_ge: "min j (i - 1) \<le> partition_down lessf data a i j"
  by (induction lessf data a i j rule: partition_down.induct)
     (subst partition_down.simps, auto)

lemma partition_loop_bounds:
  "i - 2 \<le> j \<Longrightarrow> partition_loop lessf data a i j = (data', j') \<Longrightarrow> i - 2 \<le> j' \<and> j' \<le> j"
proof (induction lessf data a i j arbitrary: data' j' rule: partition_loop.induct)
  case (1 lessf data a i j)
  let ?i = "partition_up lessf data a i j"
  let ?j = "partition_down lessf data a ?i j"
  have i: "i \<le> ?i" by (rule partition_up_ge)
  have j: "min j (?i - 1) \<le> ?j" "?j \<le> j" by (rule partition_down_ge, rule partition_down_le)
  show ?case
  proof (cases "?i > ?j")
    case True
    then have "j' = ?j" using 1(3) by (subst (asm) partition_loop.simps) (auto simp: Let_def)
    then show ?thesis using 1(2) i j by auto
  next
    case False
    then have "partition_loop lessf (Swap data (nat ?i) (nat ?j)) a (?i + 1) (?j - 1) = (data', j')"
      using 1(3) by (subst (asm) partition_loop.simps) (auto simp: Let_def)
    from 1(1)[OF refl refl False _ this] False have "?i + 1 - 2 \<le> j' \<and> j' \<le> ?j - 1" by auto
    then show ?thesis using i j by auto
  qed
qed

lemma partition_mid:
  assumes "a < b" and "partition lessf data a b pivot = (data', mid, ap)"
  shows "a \<le> mid \<and> mid < b"
proof -
  let ?d = "Swap data a pivot"
  let ?i = "partition_up lessf ?d a (int a + 1) (int b - 1)"
  let ?j = "partition_down lessf ?d a ?i (int b - 1)"
  have i: "int a + 1 \<le> ?i" by (rule partition_up_ge)
  have j: "min (int b - 1) (?i - 1) \<le> ?j" "?j \<le> int b - 1"
    by (rule partition_down_ge, rule partition_down_le)
  show ?thesis
  proof (cases "?i > ?j")
    case True
    then have "mid = nat ?j" using assms(2) by (auto simp: partition_def Let_def)
    then show ?thesis using i j assms(1) by auto
  next
    case False
    obtain d2 j2 where l: "partition_loop lessf (Swap ?d (nat ?i) (nat ?j)) a (?i + 1) (?j - 1) = (d2, j2)"
      by (cases "partition_loop lessf (Swap ?d (nat ?i) (nat ?j)) a (?i + 1) (?j - 1)") auto
    then have "mid = nat j2" using assms(2) False by (auto simp: partition_def Let_def)
    moreover have "?i + 1 - 2 \<le> j2 \<and> j2 \<le> ?j - 1" using partition_loop_bounds[OF _ l] False by auto
    ultimately show ?thesis using i j assms(1) by auto
  qed
qed

lemma partitionEqual_loop_ge:
  "partitionEqual_loop lessf data a i j = (data', i') \<Longrightarrow> i \<le> i'"
proof (induction lessf data a i j arbitrary: data' i' rule: partitionEqual_loop.induct)
  case (1 lessf data a i j)
  let ?i = "partitionEqual_up lessf data a i j"
  let ?j = "partitionEqual_down lessf data a ?i j"
  have i: "i \<le> ?i" by (rule partitionEqual_up_ge)
  show ?case
  proof (cases "?i > ?j")
    case True
    then show ?thesis using 1(2) i by (subst (asm) partitionEqual_loop.simps) (auto simp: Let_def)
  next
    case False
    then have "partitionEqual_loop lessf (Swap data (nat ?i) (nat ?j)) a (?i + 1) (?j - 1) = (data', i')"
      using 1(2) by (subst (asm) partitionEqual_loop.simps) (auto simp: Let_def)
    from 1(1)[OF refl refl False this] show ?thesis using i by auto
  qed
qed

lemma partitionEqual_mid:
  assumes "partitionEqual lessf data a b pivot = (data', mid)"
  shows "a < mid"
proof -
  obtain d2 i2 where l: "partitionEqual_loop lessf (Swap data a pivot) a (int a + 1) (int b - 1) = (d2, i2)"
    by (cases "partitionEqual_loop lessf (Swap data a pivot) a (int a + 1) (int b - 1)") auto
  then have "mid = nat i2" using assms by (auto simp: partitionEqual_def Let_def)
  moreover have "int a + 1 \<le> i2" using partitionEqual_loop_ge[OF l] .
  ultimately show ?thesis by auto
qed

lemma partition_mid_sym:
  "(data', mid, ap) = partition lessf data a b pivot \<Longrightarrow> a < b \<longrightarrow> a \<le> mid \<and> mid < b"
  using partition_mid[of a b lessf data pivot data' mid ap] by auto

lemma partitionEqual_mid_sym:
  "(data', mid) = partitionEqual lessf data a b pivot \<Longrightarrow> a < mid"
  using partitionEqual_mid[of lessf data a b pivot data' mid] by auto

termination pdqsort
  apply (relation "measure (\<lambda>(lessf, data, a, b, limit, wasBalanced, wasPartitioned). b - a)")
  apply simp
  apply (auto simp: maxInsertion_def dest!: partition_mid_sym partitionEqual_mid_sym)
  done

declare pdqsort.simps [simp del]

text \<open>
  The part of the loop body of \<^verbatim>\<open>pdqsort\<close> that precedes the partitioning, as a
  function of its own: the slice, the limit and the pivot with which the body goes on,
  and whether the partial insertion sort has found the range sorted. The properties of
  \<open>pdqsort\<close> are proved through it.
\<close>

definition pdqsort_prepare ::
  "('a \<Rightarrow> 'a \<Rightarrow> bool) \<Rightarrow> 'a list \<Rightarrow> nat \<Rightarrow> nat \<Rightarrow> nat \<Rightarrow> bool \<Rightarrow> bool
     \<Rightarrow> 'a list \<times> nat \<times> nat \<times> bool" where
  "pdqsort_prepare lessf data a b limit wasBalanced wasPartitioned =
     (let (data, limit) =
            (if \<not> wasBalanced then (breakPatterns data a b, limit - 1) else (data, limit));
          (pivot, hint) = choosePivot lessf data a b;
          (data, pivot, hint) =
            (if hint = decreasingHint
             then (reverseRange data a b, (b - 1) - (pivot - a), increasingHint)
             else (data, pivot, hint));
          (data, sorted) =
            (if wasBalanced \<and> wasPartitioned \<and> hint = increasingHint
             then partialInsertionSort lessf data a b
             else (data, False))
      in (data, limit, pivot, sorted))"

definition sort_Sort :: "('a \<Rightarrow> 'a \<Rightarrow> bool) \<Rightarrow> 'a list \<Rightarrow> 'a list" where
  "sort_Sort lessf data =
     (let n = length data in
      if n \<le> 1 then data
      else let limit = bits_Len n in pdqsort lessf data 0 n limit True True)"

section \<open>Reading incidents\<close>

text \<open>
  \<^verbatim>\<open>scanIncident\<close> reads one row through the \<^verbatim>\<open>scanner\<close> interface. The
  scanner is either a \<^verbatim>\<open>*sql.Row\<close>, which may carry \<^verbatim>\<open>sql.ErrNoRows\<close>, or
  the current row of a \<^verbatim>\<open>*sql.Rows\<close>. Scanning NULL into the Go string
  \<^verbatim>\<open>inc.Description\<close> fails.
\<close>

definition scanIncident :: "error + incident_row \<Rightarrow> error + Incident" where
  "scanIncident s =
     (case s of
        Inl err \<Rightarrow> Inl err
      | Inr row \<Rightarrow>
          (case i_description row of
             None \<Rightarrow> Inl ErrScanNull
           | Some description \<Rightarrow>
               Inr \<lparr>Id = i_id row,
                    Timestamp = Some \<lparr>Seconds = i_timestamp row, Nanos = 0\<rparr>,
                    Description = description,
                    Coordinates = Some \<lparr>Lat = i_lat row, Lon = i_lon row\<rparr>,
                    Resolution = Resolution_of_label (i_resolution row),
                    ImageId = i_image row,
                    ReviewerComments = []\<rparr>))"

text \<open>
  The loop over \<^verbatim>\<open>rows.Next()\<close> of \<^verbatim>\<open>ViewIncident\<close>: the identifier, the
  incident identifier and the resolution of each comment row are scanned into
  \<^verbatim>\<open>discard\<close>, so the comment keeps the zero value of every field but the three
  that are scanned.
\<close>

fun scanComments :: "Incident \<Rightarrow> comment_row list \<Rightarrow> Incident" where
  "scanComments inc [] = inc"
| "scanComments inc (row # rows) =
     scanComments
       (inc\<lparr>ReviewerComments :=
              ReviewerComments inc @
                [\<lparr>Comment_Timestamp = c_timestamp row,
                  Comment_AuthorId = c_author row,
                  Comment_Message = c_comment row,
                  Comment_Resolution = Resolution_RESOLUTION_UNSPECIFIED\<rparr>]\<rparr>)
       rows"

text \<open>\<^verbatim>\<open>ByTimestamp.Less\<close>\<close>

definition ByTimestamp_Less :: "Comment \<Rightarrow> Comment \<Rightarrow> bool" where
  "ByTimestamp_Less x y \<longleftrightarrow> Comment_Timestamp x < Comment_Timestamp y"

definition ViewIncident :: "database \<Rightarrow> string \<Rightarrow> error + Incident" where
  "ViewIncident db ident =
     (let tx = db in
      case scanIncident (QueryRow (viewIncidentStmt tx ident)) of
        Inl err \<Rightarrow>
          (if errors_Is err ErrNoRows then Inl ErrDoesNotExist
           else Inl (fmt_Errorf ''unable to get incident info'' err))
      | Inr inc \<Rightarrow>
          (let inc = scanComments inc (viewCommentsStmt tx ident);
               inc = inc\<lparr>ReviewerComments := sort_Sort ByTimestamp_Less (ReviewerComments inc)\<rparr>
           in Inr inc))"

text \<open>
  The loop over \<^verbatim>\<open>rows.Next()\<close> that the four listing operations share word for
  word; \<open>incs\<close> is the slice \<^verbatim>\<open>incidents\<close> built so far.
\<close>

fun scanRows :: "incident_row list \<Rightarrow> Incident list \<Rightarrow> error + Incident list" where
  "scanRows [] incs = Inr incs"
| "scanRows (row # rows) incs =
     (case scanIncident (Inr row) of
        Inl err \<Rightarrow>
          (if errors_Is err ErrNoRows then Inl ErrDoesNotExist
           else Inl (fmt_Errorf ''unable to get incident info'' err))
      | Inr inc \<Rightarrow> scanRows rows (incs @ [inc]))"

text \<open>\<^verbatim>\<open>incidentsWithoutReviewQuery\<close>\<close>

definition incidentsWithoutReviewStmt :: "database \<Rightarrow> string \<Rightarrow> incident_row list" where
  "incidentsWithoutReviewStmt db res = filter (\<lambda>r. i_resolution r = res) (incidents db)"

definition IncidentsWithoutReview :: "database \<Rightarrow> error + Incident list" where
  "IncidentsWithoutReview db =
     scanRows
       (incidentsWithoutReviewStmt db (Resolution_String Resolution_RESOLUTION_UNSPECIFIED)) []"

text \<open>
  \<^verbatim>\<open>incidentsInRadiusQuery\<close>. \<^verbatim>\<open>fmt.Sprintf\<close> with \<^verbatim>\<open>%q\<close> writes the two labels
  in double quotes; SQLite, the store of \<^verbatim>\<open>go.mod\<close>, reads a double-quoted word that
  names no column as a string literal.
\<close>

definition incidentsInRadiusStmt :: "database \<Rightarrow> incident_row list" where
  "incidentsInRadiusStmt db =
     filter (\<lambda>r. i_resolution r = Resolution_String Resolution_RESOLUTION_ACCEPTED
                \<or> i_resolution r = Resolution_String Resolution_RESOLUTION_ALERTED)
       (incidents db)"

text \<open>
  \<^verbatim>\<open>slices.DeleteFunc\<close> keeps, in order, the elements for which \<open>del\<close> is false. The
  function passed to it dereferences \<^verbatim>\<open>i.Coordinates\<close>, so \<open>del\<close> may panic.
\<close>

fun slices_DeleteFunc :: "'a list \<Rightarrow> ('a \<Rightarrow> error + bool) \<Rightarrow> error + 'a list" where
  "slices_DeleteFunc [] del = Inr []"
| "slices_DeleteFunc (x # xs) del =
     (case del x of
        Inl err \<Rightarrow> Inl err
      | Inr d \<Rightarrow>
          (case slices_DeleteFunc xs del of
             Inl err \<Rightarrow> Inl err
           | Inr ys \<Rightarrow> Inr (if d then ys else x # ys)))"

text \<open>
  The function \<^verbatim>\<open>distance\<close> of the package is defined in a file that is not among
  the sources at hand; it is the argument \<open>distance\<close>. Distances and the radius are the
  real numbers that the floating-point values denote.
\<close>

definition IncidentsInRadius ::
  "(real \<Rightarrow> real \<Rightarrow> real \<Rightarrow> real \<Rightarrow> real) \<Rightarrow> database \<Rightarrow> Coordinates \<Rightarrow> real
     \<Rightarrow> error + Incident list" where
  "IncidentsInRadius distance db center radius =
     (case scanRows (incidentsInRadiusStmt db) [] of
        Inl err \<Rightarrow> Inl err
      | Inr incs \<Rightarrow>
          slices_DeleteFunc incs
            (\<lambda>i. case Coordinates i of
                   None \<Rightarrow> Inl PanicNilDereference
                 | Some co \<Rightarrow> Inr (distance (Lat center) (Lon center) (Lat co) (Lon co) > radius)))"

section \<open>Time\<close>

text \<open>
  A \<^verbatim>\<open>time.Time\<close> is the number of nanoseconds since the Unix epoch of the
  instant it denotes, a \<^verbatim>\<open>time.Duration\<close> a number of nanoseconds. The current
  time \<^verbatim>\<open>time.Now()\<close> is the argument \<open>now\<close> of the operations that read the
  clock. \<^verbatim>\<open>Time.Sub\<close> saturates at the bounds of the 64-bit duration.

  \<^verbatim>\<open>time.Unix(sec, nsec)\<close> of Go's library keeps the seconds since the year 1 in
  a signed 64-bit integer: it brings \<open>nsec\<close> into the range of one second and adds
  the constant \<^verbatim>\<open>unixToInternal\<close>, the seconds from the year 1 to 1970, to \<open>sec\<close>.
  Every one of these additions wraps around at 64 bits, which \<open>int64\<close> writes out; a
  number of seconds above \<open>2 ^ 63 - 1 - unixToInternal\<close> therefore denotes an instant
  some 292 billion years before the epoch.
\<close>

type_synonym time = int

definition Second :: int where
  "Second = 1000000000"

definition Hour :: int where
  "Hour = 3600 * Second"

definition time_Add :: "time \<Rightarrow> int \<Rightarrow> time" where
  "time_Add t d = t + d"

definition Time_Unix :: "time \<Rightarrow> int" where
  "Time_Unix t = t div Second"

definition int64 :: "int \<Rightarrow> int" where
  "int64 x = (x + 2 ^ 63) mod 2 ^ 64 - 2 ^ 63"

definition unixToInternal :: int where
  "unixToInternal = 62135596800"

definition time_Unix :: "int \<Rightarrow> int \<Rightarrow> time" where
  "time_Unix sec nsec =
     (let (sec, nsec) =
            (if nsec < 0 \<or> nsec \<ge> 1000000000 then
               (let n = nsec sdiv 1000000000;
                    sec = int64 (sec + n);
                    nsec = int64 (nsec - int64 (n * 1000000000))
                in if nsec < 0 then (int64 (sec - 1), int64 (nsec + 1000000000))
                   else (sec, nsec))
             else (sec, nsec))
      in (int64 (sec + unixToInternal) - unixToInternal) * Second + nsec)"

definition maxDuration :: int where
  "maxDuration = 2 ^ 63 - 1"

definition minDuration :: int where
  "minDuration = - (2 ^ 63)"

definition time_Sub :: "time \<Rightarrow> time \<Rightarrow> int" where
  "time_Sub t u =
     (let d = t - u in
      if d < minDuration then minDuration
      else if d > maxDuration then maxDuration
      else d)"

definition time_Since :: "time \<Rightarrow> time \<Rightarrow> int" where
  "time_Since now t = time_Sub now t"

section \<open>Region queries\<close>

text \<open>
  \<^verbatim>\<open>incidentsInRegionQuery\<close> and \<^verbatim>\<open>alertingIncidentsQuery\<close>, with their five
  parameters in the order of the source: since, north, south, west, east. The
  parameters are bound as integers and compared with the stored numbers. Neither query
  has an \<^verbatim>\<open>ORDER BY\<close> clause, so the order in which the store hands out the rows
  is its own choice; here it is the order of the table, and the properties of the two
  operations speak of the incidents returned, not of their order.
\<close>

definition incidentsInRegionStmt ::
  "database \<Rightarrow> int \<Rightarrow> int \<Rightarrow> int \<Rightarrow> int \<Rightarrow> int \<Rightarrow> incident_row list" where
  "incidentsInRegionStmt db since north south west east =
     filter (\<lambda>r. (i_resolution r = Resolution_String Resolution_RESOLUTION_ACCEPTED
                 \<or> i_resolution r = Resolution_String Resolution_RESOLUTION_ALERTED)
                \<and> i_timestamp r > since
                \<and> i_lat r < of_int north
                \<and> i_lat r > of_int south
                \<and> i_lon r > of_int west
                \<and> i_lon r < of_int east)
       (incidents db)"

definition alertingIncidentsStmt ::
  "database \<Rightarrow> int \<Rightarrow> int \<Rightarrow> int \<Rightarrow> int \<Rightarrow> int \<Rightarrow> incident_row list" where
  "alertingIncidentsStmt db since north south west east =
     filter (\<lambda>r. i_resolution r = Resolution_String Resolution_RESOLUTION_ALERTED
                \<and> i_timestamp r > since
                \<and> i_lat r < of_int north
                \<and> i_lat r > of_int south
                \<and> i_lon r > of_int west
                \<and> i_lon r < of_int east)
       (incidents db)"

definition IncidentsInRegion :: "database \<Rightarrow> time \<Rightarrow> Region \<Rightarrow> error + Incident list" where
  "IncidentsInRegion db since region =
     scanRows
       (incidentsInRegionStmt db
          (Time_Unix since)
          (North region sdiv 100)
          (South region sdiv 100)
          (West region sdiv 100)
          (East region sdiv 100)) []"

definition AlertingIncidents :: "database \<Rightarrow> time \<Rightarrow> Region \<Rightarrow> error + Incident list" where
  "AlertingIncidents db since region =
     scanRows
       (alertingIncidentsStmt db
          (Time_Unix since)
          (North region sdiv 100)
          (South region sdiv 100)
          (West region sdiv 100)
          (East region sdiv 100)) []"

section \<open>Sessions\<close>

text \<open>\<^verbatim>\<open>saveSessionQuery\<close>: \<^verbatim>\<open>id\<close> is the primary key of \<^verbatim>\<open>sessions\<close>.\<close>

definition saveSessionStmt :: "database \<Rightarrow> string \<Rightarrow> int \<Rightarrow> error + database" where
  "saveSessionStmt db session expiry =
     (if session \<in> set (map s_id (sessions db)) then Inl ErrConstraintPrimaryKey
      else Inr (db\<lparr>sessions := sessions db @ [\<lparr>s_id = session, s_expiry = expiry\<rparr>]\<rparr>))"

text \<open>\<^verbatim>\<open>isValidSessionQuery\<close>\<close>

definition isValidSessionStmt :: "database \<Rightarrow> string \<Rightarrow> int list" where
  "isValidSessionStmt db session =
     map s_expiry (filter (\<lambda>r. s_id r = session) (sessions db))"

definition SaveSession :: "database \<Rightarrow> time \<Rightarrow> string \<Rightarrow> database \<times> error option" where
  "SaveSession db now session =
     (let expiry = time_Add now (1 * Hour) in
      case saveSessionStmt db session (Time_Unix expiry) of
        Inl err \<Rightarrow> (db, Some (fmt_Errorf ''unable to save session'' err))
      | Inr db' \<Rightarrow> (db', None))"

text \<open>
  \<^verbatim>\<open>IsValidSession\<close> runs one \<^verbatim>\<open>SELECT\<close>; the store it returns is the store it
  was given.
\<close>

definition IsValidSession :: "database \<Rightarrow> time \<Rightarrow> string \<Rightarrow> database \<times> error option" where
  "IsValidSession db now session =
     (case QueryRow (isValidSessionStmt db session) of
        Inl err \<Rightarrow> (db, Some (fmt_Errorf ''unable to scan row'' err))
      | Inr expiryUnix \<Rightarrow>
          (let expiry = time_Unix expiryUnix 0 in
           if time_Since now expiry > 0 then (db, Some (errors_New ''session expired''))
           else (db, None)))"

section \<open>Ranges of a slice\<close>

text \<open>
  The notions in which the result of \<^verbatim>\<open>sort.Sort\<close> is described. \<open>rearranged\<close>:
  the second slice has the length of the first, agrees with it outside the range from
  \<open>a\<close> up to, not including, \<open>b\<close>, and holds in that range only elements that the
  first holds there. \<open>range_sorted\<close>: the keys do not decrease along the range.
  \<open>range_sorted_but\<close>: the same, except that the element at \<open>j\<close> may be smaller than
  elements before it. \<open>above_left\<close>: no element of the range has a smaller key than
  the element just before the range.
\<close>

definition rearranged :: "'a list \<Rightarrow> 'a list \<Rightarrow> nat \<Rightarrow> nat \<Rightarrow> bool" where
  "rearranged data data' a b \<longleftrightarrow>
     length data' = length data \<and>
     (\<forall>i. i < length data \<and> (i < a \<or> b \<le> i) \<longrightarrow> data' ! i = data ! i) \<and>
     (\<forall>i. a \<le> i \<and> i < b \<longrightarrow> (\<exists>j. a \<le> j \<and> j < b \<and> data' ! i = data ! j))"

definition range_sorted :: "('a \<Rightarrow> 'k::linorder) \<Rightarrow> 'a list \<Rightarrow> nat \<Rightarrow> nat \<Rightarrow> bool" where
  "range_sorted key data a b \<longleftrightarrow>
     (\<forall>i j. a \<le> i \<and> i < j \<and> j < b \<longrightarrow> key (data ! i) \<le> key (data ! j))"

definition range_sorted_but :: "('a \<Rightarrow> 'k::linorder) \<Rightarrow> 'a list \<Rightarrow> nat \<Rightarrow> nat \<Rightarrow> nat \<Rightarrow> bool" where
  "range_sorted_but key data a b j \<longleftrightarrow>
     (\<forall>p q. a \<le> p \<and> p < q \<and> q < b \<and> q \<noteq> j \<longrightarrow> key (data ! p) \<le> key (data ! q))"

definition above_left :: "('a \<Rightarrow> 'k::linorder) \<Rightarrow> 'a list \<Rightarrow> nat \<Rightarrow> nat \<Rightarrow> bool" where
  "above_left key data a b \<longleftrightarrow>
     (a > 0 \<longrightarrow> (\<forall>i. a \<le> i \<and> i < b \<longrightarrow> key (data ! (a - 1)) \<le> key (data ! i)))"

text \<open>
  The invariant of the partition loops, for the pivot at \<open>a\<close>: the cursors \<open>i\<close> and
  \<open>j\<close> lie between \<open>a\<close> and \<open>b\<close>, the elements between \<open>a\<close> and \<open>i\<close> have keys
  below the pivot's, and the elements after \<open>j\<close> have keys not below it.
\<close>

definition partition_inv ::
  "('a \<Rightarrow> 'k::linorder) \<Rightarrow> 'a list \<Rightarrow> nat \<Rightarrow> nat \<Rightarrow> int \<Rightarrow> int \<Rightarrow> bool" where
  "partition_inv key data a b i j \<longleftrightarrow>
     int a < i \<and> j < int b \<and> i \<le> j + 1 \<and> b \<le> length data \<and>
     (\<forall>k. a < k \<and> int k < i \<longrightarrow> key (data ! k) < key (data ! a)) \<and>
     (\<forall>k. j < int k \<and> k < b \<longrightarrow> key (data ! a) \<le> key (data ! k))"

text \<open>
  The invariant of the loops of \<open>partitionEqual\<close>: the elements between \<open>a\<close> and
  \<open>i\<close> have keys not above the pivot's, and the elements after \<open>j\<close> have keys above
  it.
\<close>

definition partitionEqual_inv ::
  "('a \<Rightarrow> 'k::linorder) \<Rightarrow> 'a list \<Rightarrow> nat \<Rightarrow> nat \<Rightarrow> int \<Rightarrow> int \<Rightarrow> bool" where
  "partitionEqual_inv key data a b i j \<longleftrightarrow>
     int a < i \<and> j < int b \<and> i \<le> j + 1 \<and> b \<le> length data \<and>
     (\<forall>k. a < k \<and> int k < i \<longrightarrow> key (data ! k) \<le> key (data ! a)) \<and>
     (\<forall>k. j < int k \<and> k < b \<longrightarrow> key (data ! a) < key (data ! k))"

text \<open>
  The heap of \<open>heapSort\<close> lies at the offset \<open>first\<close>; the children of the node
  \<open>p\<close> are the nodes \<open>2 * p + 1\<close> and \<open>2 * p + 2\<close>. \<open>is_heap_from\<close>: below
  \<open>hi\<close>, no child of a node from \<open>l\<close> on has a larger key than the node.
  \<open>sift_inv\<close>, the invariant of \<open>siftDown\<close>: the same, except for the children of
  the node \<open>rt\<close>, which are not larger than the parent of \<open>rt\<close>.
\<close>

definition is_heap_from :: "('a \<Rightarrow> 'k::linorder) \<Rightarrow> 'a list \<Rightarrow> nat \<Rightarrow> nat \<Rightarrow> nat \<Rightarrow> bool" where
  "is_heap_from key data first l hi \<longleftrightarrow>
     (\<forall>p c. l \<le> p \<and> c < hi \<and> (c = 2 * p + 1 \<or> c = 2 * p + 2) \<longrightarrow>
        key (data ! (first + c)) \<le> key (data ! (first + p)))"

definition sift_inv :: "('a \<Rightarrow> 'k::linorder) \<Rightarrow> 'a list \<Rightarrow> nat \<Rightarrow> nat \<Rightarrow> nat \<Rightarrow> nat \<Rightarrow> bool" where
  "sift_inv key data first l hi rt \<longleftrightarrow>
     (\<forall>p c. l \<le> p \<and> p \<noteq> rt \<and> c < hi \<and> (c = 2 * p + 1 \<or> c = 2 * p + 2) \<longrightarrow>
        key (data ! (first + c)) \<le> key (data ! (first + p))) \<and>
     (\<forall>p c. l \<le> p \<and> (rt = 2 * p + 1 \<or> rt = 2 * p + 2) \<and> c < hi \<and>
            (c = 2 * rt + 1 \<or> c = 2 * rt + 2) \<longrightarrow>
        key (data ! (first + c)) \<le> key (data ! (first + p)))"

section \<open>Example stores\<close>

text \<open>
  A small store and a few requests, on which the properties below are instantiated:
  one accepted incident \<^verbatim>\<open>a\<close> at latitude and longitude 5, and one session.
\<close>

definition row_a :: incident_row where
  "row_a = \<lparr>i_id = ''a'', i_timestamp = 100, i_description = Some ''fire'',
            i_lat = 5, i_lon = 5, i_resolution = ''RESOLUTION_ACCEPTED'', i_image = ''img-a''\<rparr>"

definition db_a :: database where
  "db_a = \<lparr>incidents = [row_a], comments = [],
           sessions = [\<lparr>s_id = ''tok'', s_expiry = 7200\<rparr>]\<rparr>"

definition inc_a :: Incident where
  "inc_a = \<lparr>Id = ''a'', Timestamp = Some \<lparr>Seconds = 100, Nanos = 0\<rparr>,
             Description = ''fire'', Coordinates = Some \<lparr>Lat = 5, Lon = 5\<rparr>,
             Resolution = Resolution_RESOLUTION_UNSPECIFIED, ImageId = ''img-a'',
             ReviewerComments = []\<rparr>"

definition comment_1 :: Comment where
  "comment_1 = \<lparr>Comment_Timestamp = 300, Comment_AuthorId = ''rev'', Comment_Message = ''ok'',
                 Comment_Resolution = Resolution_RESOLUTION_UNSPECIFIED\<rparr>"

definition row_s :: incident_row where
  "row_s = \<lparr>i_id = ''s'', i_timestamp = 100, i_description = Some ''on the southern edge'',
            i_lat = 0, i_lon = 5, i_resolution = ''RESOLUTION_ACCEPTED'', i_image = ''img-s''\<rparr>"

definition db_s :: database where
  "db_s = \<lparr>incidents = [row_s], comments = [], sessions = []\<rparr>"

definition region_scaled :: Region where
  "region_scaled = \<lparr>North = 1000, South = 0, West = 0, East = 1000\<rparr>"

definition region_raw :: Region where
  "region_raw = \<lparr>North = 10, South = 0, West = 0, East = 10\<rparr>"

definition view_a :: Incident where
  "view_a = \<lparr>Id = ''a'', Timestamp = Some \<lparr>Seconds = 100, Nanos = 0\<rparr>,
              Description = ''fire'', Coordinates = Some \<lparr>Lat = 5, Lon = 5\<rparr>,
              Resolution = Resolution_RESOLUTION_ACCEPTED, ImageId = ''img-a'',
              ReviewerComments = []\<rparr>"
definition row_far :: incident_row where
  "row_far = \<lparr>i_id = ''far'', i_timestamp = 100, i_description = Some ''far away'',
              i_lat = 11, i_lon = 0, i_resolution = ''RESOLUTION_ACCEPTED'', i_image = ''img-f''\<rparr>"

definition row_near :: incident_row where
  "row_near = \<lparr>i_id = ''near'', i_timestamp = 100, i_description = Some ''close by'',
               i_lat = 9, i_lon = 0, i_resolution = ''RESOLUTION_ALERTED'', i_image = ''img-n''\<rparr>"

definition row_rejected :: incident_row where
  "row_rejected = \<lparr>i_id = ''rej'', i_timestamp = 100, i_description = Some ''rejected'',
               i_lat = 1, i_lon = 0, i_resolution = ''RESOLUTION_REJECTED'', i_image = ''img-r''\<rparr>"

definition row_unreviewed :: incident_row where
  "row_unreviewed = \<lparr>i_id = ''new'', i_timestamp = 100, i_description = Some ''unreviewed'',
               i_lat = 2, i_lon = 0, i_resolution = ''RESOLUTION_UNSPECIFIED'', i_image = ''img-u''\<rparr>"

definition db_radius :: database where
  "db_radius = \<lparr>incidents = [row_far, row_rejected, row_near, row_unreviewed],
                comments = [], sessions = []\<rparr>"

definition view_near :: Incident where
  "view_near = \<lparr>Id = ''near'', Timestamp = Some \<lparr>Seconds = 100, Nanos = 0\<rparr>,
              Description = ''close by'', Coordinates = Some \<lparr>Lat = 9, Lon = 0\<rparr>,
              Resolution = Resolution_RESOLUTION_ALERTED, ImageId = ''img-n'',
              ReviewerComments = []\<rparr>"

text \<open>A stand-in for the distance function: the distance along the meridian.\<close>

definition meridian_distance :: "real \<Rightarrow> real \<Rightarrow> real \<Rightarrow> real \<Rightarrow> real" where
  "meridian_distance lat1 lon1 lat2 lon2 = \<bar>lat2 - lat1\<bar>"

definition row_odd :: incident_row where
  "row_odd = \<lparr>i_id = ''odd'', i_timestamp = 100, i_description = Some ''odd label'',
              i_lat = 5, i_lon = 5, i_resolution = ''7'', i_image = ''img-o''\<rparr>"

definition db_odd :: database where
  "db_odd = \<lparr>incidents = [row_a, row_odd], comments = [], sessions = []\<rparr>"

definition view_odd :: Incident where
  "view_odd = \<lparr>Id = ''odd'', Timestamp = Some \<lparr>Seconds = 100, Nanos = 0\<rparr>,
              Description = ''odd label'', Coordinates = Some \<lparr>Lat = 5, Lon = 5\<rparr>,
              Resolution = Resolution_RESOLUTION_UNSPECIFIED, ImageId = ''img-o'',
              ReviewerComments = []\<rparr>"

definition view_reviewed :: Incident where
  "view_reviewed = view_a\<lparr>Resolution := Resolution_RESOLUTION_ALERTED,
                            ReviewerComments := [comment_1]\<rparr>"
text \<open>The comment that one round of the loop of \<open>scanComments\<close> appends.\<close>

definition scanComment :: "comment_row \<Rightarrow> Comment" where
  "scanComment row = \<lparr>Comment_Timestamp = c_timestamp row,
                       Comment_AuthorId = c_author row,
                       Comment_Message = c_comment row,
                       Comment_Resolution = Resolution_RESOLUTION_UNSPECIFIED\<rparr>"

text \<open>
  Thirteen comments on the incident \<^verbatim>\<open>a\<close>, stored in the order \<^verbatim>\<open>m0\<close> to
  \<^verbatim>\<open>m12\<close>; \<^verbatim>\<open>m1\<close> has the timestamp 0, all the others the timestamp 1.
\<close>

definition tie_row :: "string \<Rightarrow> int \<Rightarrow> comment_row" where
  "tie_row m ts = \<lparr>c_id = m, c_incident_id = ''a'', c_timestamp = ts, c_author = ''rev'',
                   c_comment = m, c_resolution = ''RESOLUTION_ACCEPTED''\<rparr>"

definition tie_comment :: "string \<Rightarrow> int \<Rightarrow> Comment" where
  "tie_comment m ts = \<lparr>Comment_Timestamp = ts, Comment_AuthorId = ''rev'', Comment_Message = m,
                       Comment_Resolution = Resolution_RESOLUTION_UNSPECIFIED\<rparr>"

definition db_ties :: database where
  "db_ties = \<lparr>incidents = [row_a],
              comments = [tie_row ''m0'' 1, tie_row ''m1'' 0, tie_row ''m2'' 1, tie_row ''m3'' 1,
                          tie_row ''m4'' 1, tie_row ''m5'' 1, tie_row ''m6'' 1, tie_row ''m7'' 1,
                          tie_row ''m8'' 1, tie_row ''m9'' 1, tie_row ''m10'' 1, tie_row ''m11'' 1,
                          tie_row ''m12'' 1],
              sessions = []\<rparr>"

definition view_ties :: Incident where
  "view_ties = view_a\<lparr>ReviewerComments :=
        [tie_comment ''m1'' 0, tie_comment ''m6'' 1, tie_comment ''m2'' 1, tie_comment ''m3'' 1,
         tie_comment ''m4'' 1, tie_comment ''m5'' 1, tie_comment ''m0'' 1, tie_comment ''m7'' 1,
         tie_comment ''m8'' 1, tie_comment ''m9'' 1, tie_comment ''m10'' 1, tie_comment ''m11'' 1,
         tie_comment ''m12'' 1]\<rparr>"

text \<open>
  A store with one alerted incident \<^verbatim>\<open>al\<close> at latitude and longitude 5.
\<close>

definition row_alert :: incident_row where
  "row_alert = \<lparr>i_id = ''al'', i_timestamp = 100, i_description = Some ''flood'',
                i_lat = 5, i_lon = 5, i_resolution = ''RESOLUTION_ALERTED'', i_image = ''img-al''\<rparr>"

definition db_alert :: database where
  "db_alert = \<lparr>incidents = [row_alert], comments = [], sessions = []\<rparr>"

definition view_alert :: Incident where
  "view_alert = \<lparr>Id = ''al'', Timestamp = Some \<lparr>Seconds = 100, Nanos = 0\<rparr>,
              Description = ''flood'', Coordinates = Some \<lparr>Lat = 5, Lon = 5\<rparr>,
              Resolution = Resolution_RESOLUTION_ALERTED, ImageId = ''img-al'',
              ReviewerComments = []\<rparr>"

text \<open>
  A store with a row \<^verbatim>\<open>odd\<close> whose resolution column holds no label of the
  enumeration, an unreviewed incident and an alerted one; the three lie at latitudes 5,
  2 and 5.
\<close>

definition db_mixed :: database where
  "db_mixed = \<lparr>incidents = [row_odd, row_unreviewed, row_alert], comments = [], sessions = []\<rparr>"

definition view_unreviewed :: Incident where
  "view_unreviewed = \<lparr>Id = ''new'', Timestamp = Some \<lparr>Seconds = 100, Nanos = 0\<rparr>,
              Description = ''unreviewed'', Coordinates = Some \<lparr>Lat = 2, Lon = 0\<rparr>,
              Resolution = Resolution_RESOLUTION_UNSPECIFIED, ImageId = ''img-u'',
              ReviewerComments = []\<rparr>"

text \<open>
  Three comments on the incident \<^verbatim>\<open>a\<close>, stored with the timestamps 300, 100 and
  200.
\<close>

definition db_three :: database where
  "db_three = \<lparr>incidents = [row_a],
               comments = [tie_row ''first'' 300, tie_row ''second'' 100, tie_row ''third'' 200],
               sessions = []\<rparr>"

definition view_three :: Incident where
  "view_three = view_a\<lparr>ReviewerComments :=
        [tie_comment ''second'' 100, tie_comment ''third'' 200, tie_comment ''first'' 300]\<rparr>"

section \<open>Properties\<close>

subsection \<open>Existence check\<close>

lemma hasIncident_iff:
  "hasIncident db ident = Inr (ident \<in> set (map i_id (incidents db)))"
proof (cases "hasIncidentStmt db ident")
  case Nil
  then have "ident \<notin> set (map i_id (incidents db))"
    by (auto simp: hasIncidentStmt_def filter_empty_conv)
  with Nil show ?thesis by (simp add: hasIncident_def)
next
  case (Cons x xs)
  then have "x \<in> set (hasIncidentStmt db ident)" by simp
  then have "x = ident" and "ident \<in> set (map i_id (incidents db))"
    by (auto simp: hasIncidentStmt_def)
  with Cons show ?thesis by (simp add: hasIncident_def)
qed

lemma distinct_key_count:
  "distinct (map f xs) \<Longrightarrow> k \<in> set (map f xs) \<Longrightarrow> length (filter (\<lambda>r. f r = k) xs) = 1"
proof (induction xs)
  case Nil
  then show ?case by simp
next
  case (Cons x xs)
  show ?case
  proof (cases "f x = k")
    case True
    with Cons.prems have "k \<notin> f ` set xs" by auto
    then have "filter (\<lambda>r. f r = k) xs = []" by (auto simp: filter_empty_conv)
    with True show ?thesis by simp
  next
    case False
    with Cons show ?thesis by auto
  qed
qed

subsection \<open>Create\<close>

text \<open>
  C2. Creating an incident whose identifier is already stored fails with
  \<^verbatim>\<open>ErrAlreadyExists\<close> and returns the store as it was; a store that respects its
  primary keys holds exactly one incident with that identifier afterwards. The source
  does not look at whether the identifier is empty, so the statement holds for every
  identifier.
\<close>

theorem SaveIncident_already_exists:
  assumes "primary_keys db"
    and "Id inc \<in> set (map i_id (incidents db))"
  shows "SaveIncident db inc = (db, Some ErrAlreadyExists) \<and>
         length (filter (\<lambda>r. i_id r = Id inc) (incidents (fst (SaveIncident db inc)))) = 1"
proof -
  have "SaveIncident db inc = (db, Some ErrAlreadyExists)"
    using assms(2) by (simp add: SaveIncident_def hasIncident_iff)
  moreover have "length (filter (\<lambda>r. i_id r = Id inc) (incidents db)) = 1"
    using assms by (intro distinct_key_count) (simp_all add: primary_keys_def)
  ultimately show ?thesis by simp
qed

theorem SaveIncident_already_exists_witness:
  "primary_keys db_a \<and> Id inc_a \<in> set (map i_id (incidents db_a)) \<and>
   SaveIncident db_a inc_a = (db_a, Some ErrAlreadyExists) \<and>
   length (filter (\<lambda>r. i_id r = Id inc_a) (incidents (fst (SaveIncident db_a inc_a)))) = 1"
proof -
  have pk: "primary_keys db_a" by (simp add: primary_keys_def db_a_def)
  have ex: "Id inc_a \<in> set (map i_id (incidents db_a))"
    by (simp add: db_a_def row_a_def inc_a_def)
  show ?thesis using pk ex SaveIncident_already_exists [OF pk ex] by blast
qed

text \<open>Creating the same incident twice: the second call is the case above.\<close>

lemma SaveIncident_twice:
  assumes "primary_keys db" and "SaveIncident db inc = (db', None)"
  shows "primary_keys db' \<and> SaveIncident db' inc = (db', Some ErrAlreadyExists)"
proof -
  from assms(2) have new: "Id inc \<notin> set (map i_id (incidents db))"
    by (auto simp: SaveIncident_def hasIncident_iff split: if_splits)
  from assms(2) new obtain ts co where ts: "Timestamp inc = Some ts" and co: "Coordinates inc = Some co"
    by (cases "Timestamp inc"; cases "Coordinates inc")
       (auto simp: SaveIncident_def hasIncident_iff)
  define row where "row = \<lparr>i_id = Id inc, i_timestamp = Seconds ts,
       i_description = Some (Description inc), i_lat = Lat co, i_lon = Lon co,
       i_resolution = Resolution_String (Resolution inc), i_image = ImageId inc\<rparr>"
  have row: "i_id row = Id inc" by (simp add: row_def)
  have db': "db' = db\<lparr>incidents := incidents db @ [row]\<rparr>"
    using assms(2) new ts co
    by (simp add: SaveIncident_def hasIncident_iff saveIncidentStmt_def row_def image_iff)
  have "primary_keys db'" using assms(1) new row by (auto simp: primary_keys_def db')
  moreover have "Id inc \<in> set (map i_id (incidents db'))" using row by (simp add: db')
  then have "SaveIncident db' inc = (db', Some ErrAlreadyExists)"
    by (simp add: SaveIncident_def hasIncident_iff)
  ultimately show ?thesis by simp
qed

subsection \<open>Review\<close>

text \<open>
  C1. For an identifier of a stored incident and a comment identifier that is fresh,
  \<^verbatim>\<open>SaveReview\<close> succeeds and returns the store in which every incident row with that
  identifier has the label of \<open>res\<close> as its resolution and the comments are those of
  before followed by one new row: the fresh identifier, the incident identifier, the
  timestamp, author and message of the comment, and the label of \<open>res\<close>. For an
  identifier that no incident has, it fails with \<^verbatim>\<open>ErrDoesNotExist\<close>. Whenever it
  fails, it returns the store it was given: no intermediate state of the transaction is
  ever returned.
\<close>

theorem SaveReview_atomic:
  "(ident \<in> set (map i_id (incidents db)) \<and> uuid \<notin> set (map c_id (comments db)) \<longrightarrow>
      SaveReview db uuid ident res comment =
        (db\<lparr>incidents :=
               map (\<lambda>r. if i_id r = ident then r\<lparr>i_resolution := Resolution_String res\<rparr> else r)
                 (incidents db),
             comments :=
               comments db @
                 [\<lparr>c_id = uuid, c_incident_id = ident,
                   c_timestamp = Comment_Timestamp comment,
                   c_author = Comment_AuthorId comment,
                   c_comment = Comment_Message comment,
                   c_resolution = Resolution_String res\<rparr>]\<rparr>, None)) \<and>
   (ident \<notin> set (map i_id (incidents db)) \<longrightarrow>
      SaveReview db uuid ident res comment = (db, Some ErrDoesNotExist)) \<and>
   (snd (SaveReview db uuid ident res comment) \<noteq> None \<longrightarrow>
      fst (SaveReview db uuid ident res comment) = db)"
  by (auto simp: SaveReview_def hasIncident_iff saveCommentStmt_def updateResolutionStmt_def
                 Let_def)

theorem SaveReview_atomic_witness:
  "SaveReview db_a ''u1'' ''a'' Resolution_RESOLUTION_ALERTED comment_1 =
     (\<lparr>incidents = [row_a\<lparr>i_resolution := ''RESOLUTION_ALERTED''\<rparr>],
       comments = [\<lparr>c_id = ''u1'', c_incident_id = ''a'', c_timestamp = 300,
                    c_author = ''rev'', c_comment = ''ok'',
                    c_resolution = ''RESOLUTION_ALERTED''\<rparr>],
       sessions = [\<lparr>s_id = ''tok'', s_expiry = 7200\<rparr>]\<rparr>, None) \<and>
   SaveReview db_a ''u1'' ''b'' Resolution_RESOLUTION_ALERTED comment_1 =
     (db_a, Some ErrDoesNotExist)"
  using SaveReview_atomic [of "''a''" db_a "''u1''" Resolution_RESOLUTION_ALERTED comment_1]
        SaveReview_atomic [of "''b''" db_a "''u1''" Resolution_RESOLUTION_ALERTED comment_1]
  by (simp add: db_a_def row_a_def comment_1_def)

subsection \<open>The scanning loop\<close>

lemma scanIncident_row:
  "scanIncident (Inr row) = Inr inc \<longleftrightarrow>
     (\<exists>d. i_description row = Some d \<and>
          inc = \<lparr>Id = i_id row,
                 Timestamp = Some \<lparr>Seconds = i_timestamp row, Nanos = 0\<rparr>,
                 Description = d,
                 Coordinates = Some \<lparr>Lat = i_lat row, Lon = i_lon row\<rparr>,
                 Resolution = Resolution_of_label (i_resolution row),
                 ImageId = i_image row,
                 ReviewerComments = []\<rparr>)"
  by (auto simp: scanIncident_def split: option.splits)

lemma scanIncident_row_Inl:
  "scanIncident (Inr row) = Inl e \<longleftrightarrow> i_description row = None \<and> e = ErrScanNull"
  by (auto simp: scanIncident_def split: option.splits)

lemma scanRows_Inr:
  "scanRows rows acc = Inr incs \<Longrightarrow>
     \<exists>new. incs = acc @ new \<and> list_all2 (\<lambda>row inc. scanIncident (Inr row) = Inr inc) rows new"
proof (induction rows arbitrary: acc)
  case Nil
  then show ?case by simp
next
  case (Cons row rows)
  from Cons.prems obtain inc where inc: "scanIncident (Inr row) = Inr inc"
    and rest: "scanRows rows (acc @ [inc]) = Inr incs"
    by (auto split: sum.splits if_splits)
  from Cons.IH[OF rest] obtain new where "incs = (acc @ [inc]) @ new"
    and "list_all2 (\<lambda>row inc. scanIncident (Inr row) = Inr inc) rows new" by blast
  with inc have "incs = acc @ (inc # new) \<and>
      list_all2 (\<lambda>row inc. scanIncident (Inr row) = Inr inc) (row # rows) (inc # new)" by simp
  then show ?case by blast
qed

lemma scanRows_Nil_Inr:
  "scanRows rows [] = Inr incs \<Longrightarrow> list_all2 (\<lambda>row inc. scanIncident (Inr row) = Inr inc) rows incs"
  using scanRows_Inr[of rows "[]" incs] by simp

lemma scanRows_succeeds:
  "\<forall>row\<in>set rows. i_description row \<noteq> None \<Longrightarrow> \<exists>incs. scanRows rows acc = Inr incs"
proof (induction rows arbitrary: acc)
  case Nil
  then show ?case by simp
next
  case (Cons row rows)
  then obtain d where "i_description row = Some d" by auto
  then obtain inc where "scanIncident (Inr row) = Inr inc" by (auto simp: scanIncident_row)
  with Cons show ?case by simp
qed

lemma scanRows_Inl:
  "scanRows rows acc = Inl e \<Longrightarrow>
     e = fmt_Errorf ''unable to get incident info'' ErrScanNull \<and>
     (\<exists>row\<in>set rows. i_description row = None)"
proof (induction rows arbitrary: acc)
  case Nil
  then show ?case by simp
next
  case (Cons row rows)
  show ?case
  proof (cases "scanIncident (Inr row)")
    case (Inl err)
    then have "i_description row = None" "err = ErrScanNull" by (simp_all add: scanIncident_row_Inl)
    with Cons.prems Inl show ?thesis by simp
  next
    case (Inr inc)
    with Cons show ?thesis by auto
  qed
qed

lemma list_all2_scan_set:
  assumes "list_all2 (\<lambda>row inc. scanIncident (Inr row) = Inr inc) rows incs"
  shows "inc \<in> set incs \<longleftrightarrow> (\<exists>row\<in>set rows. scanIncident (Inr row) = Inr inc)"
proof
  assume "inc \<in> set incs"
  then obtain i where "i < length incs" "incs ! i = inc" by (auto simp: in_set_conv_nth)
  with assms have "i < length rows" "scanIncident (Inr (rows ! i)) = Inr inc"
    by (auto simp: list_all2_conv_all_nth)
  then show "\<exists>row\<in>set rows. scanIncident (Inr row) = Inr inc"
    using nth_mem by blast
next
  assume "\<exists>row\<in>set rows. scanIncident (Inr row) = Inr inc"
  then obtain i where "i < length rows" "scanIncident (Inr (rows ! i)) = Inr inc"
    by (auto simp: in_set_conv_nth)
  with assms have "i < length incs" "incs ! i = inc" by (auto simp: list_all2_conv_all_nth)
  then show "inc \<in> set incs" by auto
qed

lemma list_all2_filter_rel:
  assumes "list_all2 R xs ys" and "\<And>x y. R x y \<Longrightarrow> P x \<longleftrightarrow> Q y"
  shows "list_all2 R (filter P xs) (filter Q ys)"
  using assms by (induction rule: list_all2_induct) auto

lemma slices_DeleteFunc_total:
  "\<forall>x\<in>set xs. \<exists>d. del x = Inr d \<Longrightarrow>
     slices_DeleteFunc xs del = Inr (filter (\<lambda>x. del x = Inr False) xs)"
  by (induction xs) auto

subsection \<open>Region queries\<close>

lemma IncidentsInRegion_rows:
  "IncidentsInRegion db since region = Inr incs \<Longrightarrow>
     list_all2 (\<lambda>row inc. scanIncident (Inr row) = Inr inc)
       (incidentsInRegionStmt db (Time_Unix since) (North region sdiv 100)
          (South region sdiv 100) (West region sdiv 100) (East region sdiv 100)) incs"
  by (simp add: IncidentsInRegion_def scanRows_Nil_Inr)

lemma AlertingIncidents_rows:
  "AlertingIncidents db since region = Inr incs \<Longrightarrow>
     list_all2 (\<lambda>row inc. scanIncident (Inr row) = Inr inc)
       (alertingIncidentsStmt db (Time_Unix since) (North region sdiv 100)
          (South region sdiv 100) (West region sdiv 100) (East region sdiv 100)) incs"
  by (simp add: AlertingIncidents_def scanRows_Nil_Inr)

text \<open>
  C3 (as amended). Every bound of the region filter is strict: an incident that
  \<^verbatim>\<open>IncidentsInRegion\<close> returns has a timestamp after \<open>since\<close>, a latitude strictly
  between the descaled southern and northern bounds and a longitude strictly between the
  descaled western and eastern bounds. An incident exactly on the southern bound is
  left out, like one exactly on the northern bound.
\<close>

theorem IncidentsInRegion_bounds_strict:
  assumes "IncidentsInRegion db since region = Inr incs"
    and "inc \<in> set incs"
  shows "\<exists>ts co. Timestamp inc = Some ts \<and> Coordinates inc = Some co \<and>
           Time_Unix since < Seconds ts \<and>
           of_int (South region sdiv 100) < Lat co \<and> Lat co < of_int (North region sdiv 100) \<and>
           of_int (West region sdiv 100) < Lon co \<and> Lon co < of_int (East region sdiv 100)"
proof -
  from assms obtain row where
    row: "row \<in> set (incidentsInRegionStmt db (Time_Unix since) (North region sdiv 100)
          (South region sdiv 100) (West region sdiv 100) (East region sdiv 100))"
    and scan: "scanIncident (Inr row) = Inr inc"
    using list_all2_scan_set[OF IncidentsInRegion_rows[OF assms(1)]] by blast
  from scan have "Timestamp inc = Some \<lparr>Seconds = i_timestamp row, Nanos = 0\<rparr>"
    and "Coordinates inc = Some \<lparr>Lat = i_lat row, Lon = i_lon row\<rparr>"
    by (auto simp: scanIncident_row)
  with row show ?thesis by (simp add: incidentsInRegionStmt_def)
qed

lemma sdiv_100_examples [simp]:
  "(1000::int) sdiv 100 = 10" "(0::int) sdiv 100 = 0" "(10::int) sdiv 100 = 0"
  by (simp_all add: signed_divide_int_def)

lemma Time_Unix_0 [simp]: "Time_Unix 0 = 0"
  by (simp add: Time_Unix_def)

lemma Resolution_of_label_String [simp]:
  "Resolution_of_label (Resolution_String res) = res"
  by (cases res) (simp_all add: Resolution_of_label_def Resolution_value_def)

lemma IncidentsInRegion_db_a:
  "IncidentsInRegion db_a 0 region_scaled = Inr [view_a]"
  by (simp add: IncidentsInRegion_def incidentsInRegionStmt_def db_a_def row_a_def
                region_scaled_def scanIncident_def view_a_def Resolution_of_label_def
                Resolution_value_def)

theorem IncidentsInRegion_bounds_strict_witness:
  "IncidentsInRegion db_a 0 region_scaled = Inr [view_a] \<and> view_a \<in> set [view_a] \<and>
   (\<exists>ts co. Timestamp view_a = Some ts \<and> Coordinates view_a = Some co \<and>
           Time_Unix 0 < Seconds ts \<and>
           of_int (South region_scaled sdiv 100) < Lat co \<and>
           Lat co < of_int (North region_scaled sdiv 100) \<and>
           of_int (West region_scaled sdiv 100) < Lon co \<and>
           Lon co < of_int (East region_scaled sdiv 100))"
proof -
  have mem: "view_a \<in> set [view_a]" by simp
  show ?thesis
    using IncidentsInRegion_db_a mem
          IncidentsInRegion_bounds_strict [OF IncidentsInRegion_db_a mem]
    by blast
qed

text \<open>
  C3 (as stated) fails: the incident \<^verbatim>\<open>s\<close> lies exactly on the descaled southern
  bound of the region, inside every other bound, and is not returned.
\<close>

theorem IncidentsInRegion_southern_bound_counterexample:
  "i_lat row_s = of_int (South region_scaled sdiv 100) \<and>
   i_lat row_s < of_int (North region_scaled sdiv 100) \<and>
   of_int (West region_scaled sdiv 100) < i_lon row_s \<and>
   i_lon row_s < of_int (East region_scaled sdiv 100) \<and>
   Time_Unix 0 < i_timestamp row_s \<and>
   i_resolution row_s = Resolution_String Resolution_RESOLUTION_ACCEPTED \<and>
   incidents db_s = [row_s] \<and>
   IncidentsInRegion db_s 0 region_scaled = Inr []"
  by (simp add: IncidentsInRegion_def incidentsInRegionStmt_def db_s_def row_s_def
                region_scaled_def)

text \<open>Both operations succeed when no stored description is NULL.\<close>

lemma region_queries_succeed:
  assumes "\<forall>row\<in>set (incidents db). i_description row \<noteq> None"
  shows "\<exists>incs. IncidentsInRegion db since region = Inr incs"
    and "\<exists>alerts. AlertingIncidents db since region = Inr alerts"
proof -
  have "\<forall>row\<in>set (incidentsInRegionStmt db (Time_Unix since) (North region sdiv 100)
          (South region sdiv 100) (West region sdiv 100) (East region sdiv 100)).
          i_description row \<noteq> None"
    using assms by (simp add: incidentsInRegionStmt_def)
  from scanRows_succeeds[OF this] show "\<exists>incs. IncidentsInRegion db since region = Inr incs"
    by (simp add: IncidentsInRegion_def)
  have "\<forall>row\<in>set (alertingIncidentsStmt db (Time_Unix since) (North region sdiv 100)
          (South region sdiv 100) (West region sdiv 100) (East region sdiv 100)).
          i_description row \<noteq> None"
    using assms by (simp add: alertingIncidentsStmt_def)
  from scanRows_succeeds[OF this] show "\<exists>alerts. AlertingIncidents db since region = Inr alerts"
    by (simp add: AlertingIncidents_def)
qed

text \<open>
  C7. Both region operations compare the stored coordinates with the four bounds
  divided by 100. On a store without NULL descriptions both succeed, and whenever one
  succeeds, an incident is among those it returns exactly if it is the scan of a stored
  row of an admitted resolution (accepted or alerted for \<^verbatim>\<open>IncidentsInRegion\<close>,
  alerted for \<^verbatim>\<open>AlertingIncidents\<close>), newer than \<open>since\<close>, whose latitude and
  longitude lie between \<open>South sdiv 100\<close> and \<open>North sdiv 100\<close> and between
  \<open>West sdiv 100\<close> and \<open>East sdiv 100\<close>.
\<close>

theorem region_bounds_divided_by_100:
  "((\<forall>row\<in>set (incidents db). i_description row \<noteq> None) \<longrightarrow>
      (\<exists>incs. IncidentsInRegion db since region = Inr incs) \<and>
      (\<exists>alerts. AlertingIncidents db since region = Inr alerts)) \<and>
   (IncidentsInRegion db since region = Inr incs \<longrightarrow>
      (inc \<in> set incs \<longleftrightarrow>
         (\<exists>row\<in>set (incidents db). scanIncident (Inr row) = Inr inc \<and>
             (i_resolution row = ''RESOLUTION_ACCEPTED'' \<or> i_resolution row = ''RESOLUTION_ALERTED'') \<and>
             Time_Unix since < i_timestamp row \<and>
             of_int (South region sdiv 100) < i_lat row \<and>
             i_lat row < of_int (North region sdiv 100) \<and>
             of_int (West region sdiv 100) < i_lon row \<and>
             i_lon row < of_int (East region sdiv 100)))) \<and>
   (AlertingIncidents db since region = Inr alerts \<longrightarrow>
      (inc \<in> set alerts \<longleftrightarrow>
         (\<exists>row\<in>set (incidents db). scanIncident (Inr row) = Inr inc \<and>
             i_resolution row = ''RESOLUTION_ALERTED'' \<and>
             Time_Unix since < i_timestamp row \<and>
             of_int (South region sdiv 100) < i_lat row \<and>
             i_lat row < of_int (North region sdiv 100) \<and>
             of_int (West region sdiv 100) < i_lon row \<and>
             i_lon row < of_int (East region sdiv 100))))"
proof (intro conjI impI)
  assume "\<forall>row\<in>set (incidents db). i_description row \<noteq> None"
  then show "\<exists>incs. IncidentsInRegion db since region = Inr incs"
    by (rule region_queries_succeed)
next
  assume "\<forall>row\<in>set (incidents db). i_description row \<noteq> None"
  then show "\<exists>alerts. AlertingIncidents db since region = Inr alerts"
    by (rule region_queries_succeed)
next
  assume "IncidentsInRegion db since region = Inr incs"
  from list_all2_scan_set[OF IncidentsInRegion_rows[OF this], of inc]
  show "inc \<in> set incs \<longleftrightarrow>
         (\<exists>row\<in>set (incidents db). scanIncident (Inr row) = Inr inc \<and>
             (i_resolution row = ''RESOLUTION_ACCEPTED'' \<or> i_resolution row = ''RESOLUTION_ALERTED'') \<and>
             Time_Unix since < i_timestamp row \<and>
             of_int (South region sdiv 100) < i_lat row \<and>
             i_lat row < of_int (North region sdiv 100) \<and>
             of_int (West region sdiv 100) < i_lon row \<and>
             i_lon row < of_int (East region sdiv 100))"
    by (auto simp: incidentsInRegionStmt_def)
next
  assume "AlertingIncidents db since region = Inr alerts"
  from list_all2_scan_set[OF AlertingIncidents_rows[OF this], of inc]
  show "inc \<in> set alerts \<longleftrightarrow>
         (\<exists>row\<in>set (incidents db). scanIncident (Inr row) = Inr inc \<and>
             i_resolution row = ''RESOLUTION_ALERTED'' \<and>
             Time_Unix since < i_timestamp row \<and>
             of_int (South region sdiv 100) < i_lat row \<and>
             i_lat row < of_int (North region sdiv 100) \<and>
             of_int (West region sdiv 100) < i_lon row \<and>
             i_lon row < of_int (East region sdiv 100))"
    by (auto simp: alertingIncidentsStmt_def)
qed

text \<open>
  The alerted incident \<^verbatim>\<open>al\<close> is stored at latitude and longitude 5. Both
  operations return it for the region whose bounds are 0 and 1000, which are the bounds
  0 and 10 after the division, and neither returns it for the region whose bounds are 0
  and 10, which are 0 and 0 after the division.
\<close>

theorem region_bounds_divided_by_100_witness:
  "IncidentsInRegion db_alert 0 region_scaled = Inr [view_alert] \<and>
   AlertingIncidents db_alert 0 region_scaled = Inr [view_alert] \<and>
   IncidentsInRegion db_alert 0 region_raw = Inr [] \<and>
   AlertingIncidents db_alert 0 region_raw = Inr [] \<and>
   i_description row_alert \<noteq> None \<and>
   incidents db_alert = [row_alert] \<and>
   scanIncident (Inr row_alert) = Inr view_alert \<and>
   i_resolution row_alert = ''RESOLUTION_ALERTED'' \<and>
   Time_Unix 0 < i_timestamp row_alert \<and>
   of_int (South region_scaled sdiv 100) < i_lat row_alert \<and>
   i_lat row_alert < of_int (North region_scaled sdiv 100) \<and>
   of_int (West region_scaled sdiv 100) < i_lon row_alert \<and>
   i_lon row_alert < of_int (East region_scaled sdiv 100) \<and>
   \<not> i_lat row_alert < of_int (North region_raw sdiv 100)"
proof -
  have desc: "\<forall>row\<in>set (incidents db_alert). i_description row \<noteq> None"
    by (simp add: db_alert_def row_alert_def)
  have scan: "scanIncident (Inr row_alert) = Inr view_alert"
    by (simp add: scanIncident_def row_alert_def view_alert_def Resolution_of_label_def
                  Resolution_value_def)
  have inr: "IncidentsInRegion db_alert 0 region_scaled = Inr [view_alert]"
    using scan
    by (simp add: IncidentsInRegion_def incidentsInRegionStmt_def db_alert_def row_alert_def
                  region_scaled_def)
  have al: "AlertingIncidents db_alert 0 region_scaled = Inr [view_alert]"
    using scan
    by (simp add: AlertingIncidents_def alertingIncidentsStmt_def db_alert_def row_alert_def
                  region_scaled_def)
  have inr_raw: "IncidentsInRegion db_alert 0 region_raw = Inr []"
    by (simp add: IncidentsInRegion_def incidentsInRegionStmt_def db_alert_def row_alert_def
                  region_raw_def)
  have al_raw: "AlertingIncidents db_alert 0 region_raw = Inr []"
    by (simp add: AlertingIncidents_def alertingIncidentsStmt_def db_alert_def row_alert_def
                  region_raw_def)
  have mem: "view_alert \<in> set [view_alert]" by simp
  have nomem: "view_alert \<notin> set []" by simp
  show ?thesis
    using desc scan inr al inr_raw al_raw mem nomem
          region_bounds_divided_by_100 [of db_alert 0 region_scaled "[view_alert]" view_alert
            "[view_alert]"]
          region_bounds_divided_by_100 [of db_alert 0 region_raw "[]" view_alert "[]"]
    by (simp add: db_alert_def row_alert_def region_scaled_def region_raw_def)
qed

subsection \<open>Radius query\<close>

text \<open>
  C6. Whatever the distance function, the incidents that \<^verbatim>\<open>IncidentsInRadius\<close>
  returns are, in the order of the store, the scans of exactly the rows whose resolution
  is the label of the accepted or of the alerted state and whose distance from the
  centre is at most the radius. Every returned incident is accepted or alerted.
\<close>

theorem IncidentsInRadius_exact:
  assumes "IncidentsInRadius distance db center radius = Inr incs"
  shows "list_all2 (\<lambda>row inc. scanIncident (Inr row) = Inr inc)
           (filter (\<lambda>r. (i_resolution r = ''RESOLUTION_ACCEPTED'' \<or>
                          i_resolution r = ''RESOLUTION_ALERTED'') \<and>
                         distance (Lat center) (Lon center) (i_lat r) (i_lon r) \<le> radius)
              (incidents db))
           incs \<and>
         (\<forall>inc\<in>set incs. Resolution inc = Resolution_RESOLUTION_ACCEPTED \<or>
                          Resolution inc = Resolution_RESOLUTION_ALERTED)"
proof -
  let ?rel = "\<lambda>row inc. scanIncident (Inr row) = Inr inc"
  let ?del = "\<lambda>i. case Coordinates i of
                   None \<Rightarrow> Inl PanicNilDereference
                 | Some co \<Rightarrow> Inr (distance (Lat center) (Lon center) (Lat co) (Lon co) > radius)"
  from assms obtain incs0 where scan: "scanRows (incidentsInRadiusStmt db) [] = Inr incs0"
    and del: "slices_DeleteFunc incs0 ?del = Inr incs"
    by (auto simp: IncidentsInRadius_def split: sum.splits)
  have rel: "list_all2 ?rel (incidentsInRadiusStmt db) incs0"
    using scan by (rule scanRows_Nil_Inr)
  have co: "\<exists>row\<in>set (incidentsInRadiusStmt db). ?rel row inc" if "inc \<in> set incs0" for inc
    using list_all2_scan_set[OF rel] that by blast
  have "\<forall>inc\<in>set incs0. \<exists>d. ?del inc = Inr d"
  proof
    fix inc assume "inc \<in> set incs0"
    from co[OF this] show "\<exists>d. ?del inc = Inr d" by (auto simp: scanIncident_row)
  qed
  from slices_DeleteFunc_total[OF this] del
  have incs: "incs = filter (\<lambda>x. ?del x = Inr False) incs0" by simp
  have "list_all2 ?rel
          (filter (\<lambda>r. distance (Lat center) (Lon center) (i_lat r) (i_lon r) \<le> radius)
             (incidentsInRadiusStmt db))
          (filter (\<lambda>x. ?del x = Inr False) incs0)"
    using rel by (rule list_all2_filter_rel) (auto simp: scanIncident_row)
  then have first: "list_all2 ?rel
           (filter (\<lambda>r. (i_resolution r = ''RESOLUTION_ACCEPTED'' \<or>
                          i_resolution r = ''RESOLUTION_ALERTED'') \<and>
                         distance (Lat center) (Lon center) (i_lat r) (i_lon r) \<le> radius)
              (incidents db))
           incs"
    by (simp add: incs incidentsInRadiusStmt_def conj_commute)
  have "Resolution inc = Resolution_RESOLUTION_ACCEPTED \<or>
        Resolution inc = Resolution_RESOLUTION_ALERTED" if "inc \<in> set incs" for inc
  proof -
    from that have "inc \<in> set incs0" by (simp add: incs)
    from co[OF this] show ?thesis
      by (auto simp: scanIncident_row incidentsInRadiusStmt_def Resolution_of_label_def
                     Resolution_value_def)
  qed
  with first show ?thesis by blast
qed

theorem IncidentsInRadius_exact_witness:
  "IncidentsInRadius meridian_distance db_radius \<lparr>Lat = 0, Lon = 0\<rparr> 10 = Inr [view_near] \<and>
   list_all2 (\<lambda>row inc. scanIncident (Inr row) = Inr inc)
     (filter (\<lambda>r. (i_resolution r = ''RESOLUTION_ACCEPTED'' \<or>
                    i_resolution r = ''RESOLUTION_ALERTED'') \<and>
                   meridian_distance (Lat \<lparr>Lat = 0, Lon = 0\<rparr>) (Lon \<lparr>Lat = 0, Lon = 0\<rparr>)
                     (i_lat r) (i_lon r) \<le> 10)
        (incidents db_radius))
     [view_near] \<and>
   (Resolution view_near = Resolution_RESOLUTION_ACCEPTED \<or>
    Resolution view_near = Resolution_RESOLUTION_ALERTED)"
proof -
  have run: "IncidentsInRadius meridian_distance db_radius \<lparr>Lat = 0, Lon = 0\<rparr> 10 = Inr [view_near]"
    by (simp add: IncidentsInRadius_def incidentsInRadiusStmt_def db_radius_def row_far_def
                  row_near_def row_rejected_def row_unreviewed_def scanIncident_def
                  view_near_def meridian_distance_def Resolution_of_label_def
                  Resolution_value_def)
  show ?thesis using run IncidentsInRadius_exact [OF run] by simp
qed

text \<open>The operation succeeds whenever no admitted row has a NULL description.\<close>

lemma IncidentsInRadius_succeeds:
  assumes "\<forall>row\<in>set (incidentsInRadiusStmt db). i_description row \<noteq> None"
  shows "\<exists>incs. IncidentsInRadius distance db center radius = Inr incs"
proof -
  let ?del = "\<lambda>i. case Coordinates i of
                   None \<Rightarrow> Inl PanicNilDereference
                 | Some co \<Rightarrow> Inr (distance (Lat center) (Lon center) (Lat co) (Lon co) > radius)"
  from scanRows_succeeds[OF assms] obtain incs0
    where scan: "scanRows (incidentsInRadiusStmt db) [] = Inr incs0" by blast
  have "\<forall>inc\<in>set incs0. \<exists>d. ?del inc = Inr d"
  proof
    fix inc assume "inc \<in> set incs0"
    with list_all2_scan_set[OF scanRows_Nil_Inr[OF scan]]
    show "\<exists>d. ?del inc = Inr d" by (auto simp: scanIncident_row)
  qed
  from slices_DeleteFunc_total[OF this] scan show ?thesis
    by (simp add: IncidentsInRadius_def)
qed

subsection \<open>Sessions\<close>

lemma time_Since_pos: "time_Since now t > 0 \<longleftrightarrow> now > t"
  by (auto simp: time_Since_def time_Sub_def Let_def minDuration_def maxDuration_def)

lemma distinct_key_filter:
  "distinct (map f xs) \<Longrightarrow> x \<in> set xs \<Longrightarrow> f x = k \<Longrightarrow> filter (\<lambda>r. f r = k) xs = [x]"
proof (induction xs)
  case Nil
  then show ?case by simp
next
  case (Cons y ys)
  show ?case
  proof (cases "y = x")
    case True
    with Cons.prems have "k \<notin> f ` set ys" by auto
    then have "filter (\<lambda>r. f r = k) ys = []" by (auto simp: filter_empty_conv)
    with True Cons.prems show ?thesis by simp
  next
    case False
    with Cons.prems have "x \<in> set ys" "f y \<noteq> k" by auto
    with Cons show ?thesis by simp
  qed
qed

lemma isValidSessionStmt_absent:
  "session \<notin> set (map s_id (sessions db)) \<Longrightarrow> isValidSessionStmt db session = []"
  by (auto simp: isValidSessionStmt_def filter_empty_conv)

lemma isValidSessionStmt_stored:
  assumes "primary_keys db" and "\<lparr>s_id = session, s_expiry = expiry\<rparr> \<in> set (sessions db)"
  shows "isValidSessionStmt db session = [expiry]"
proof -
  have "distinct (map s_id (sessions db))" using assms(1) by (simp add: primary_keys_def)
  from distinct_key_filter[OF this assms(2), of session] show ?thesis
    by (simp add: isValidSessionStmt_def)
qed

lemma int64_in_range: "- (2 ^ 63) \<le> x \<Longrightarrow> x < 2 ^ 63 \<Longrightarrow> int64 x = x"
  by (simp add: int64_def)

lemma time_Unix_in_range:
  assumes "- (2 ^ 63) \<le> sec + unixToInternal" and "sec + unixToInternal < 2 ^ 63"
    and "0 \<le> nsec" and "nsec < 1000000000"
  shows "time_Unix sec nsec = sec * Second + nsec"
  using assms by (simp add: time_Unix_def int64_in_range)

lemma time_Unix_examples [simp]:
  "time_Unix 7200 0 = 7200000000000" "time_Unix 7200 1 = 7200000000001"
  "time_Unix 5000 0 = 5000000000000"
  by (simp_all add: time_Unix_in_range unixToInternal_def Second_def)

text \<open>
  C8. \<^verbatim>\<open>IsValidSession\<close> returns the store it was given. For a token that is not
  stored it fails with \<^verbatim>\<open>sql.ErrNoRows\<close> wrapped in a message, an error that
  \<^verbatim>\<open>errors.Is\<close> tells apart from the error of an expired session. For a token stored
  with the expiry \<open>expiry\<close>, a 64-bit number of seconds that \<^verbatim>\<open>time.Unix\<close> reads
  without wrapping around (every expiry that \<^verbatim>\<open>SaveSession\<close> writes is one), it
  fails with the error \<^verbatim>\<open>session expired\<close> when the current time is after the
  expiry, and succeeds otherwise; so, when every stored expiry is such a number, it
  succeeds exactly when the token is stored and the current time is not after its expiry.
\<close>

theorem IsValidSession_contract:
  "fst (IsValidSession db now session) = db \<and>
   (session \<notin> set (map s_id (sessions db)) \<longrightarrow>
      snd (IsValidSession db now session) = Some (fmt_Errorf ''unable to scan row'' ErrNoRows)) \<and>
   errors_Is (fmt_Errorf ''unable to scan row'' ErrNoRows) ErrNoRows \<and>
   \<not> errors_Is (errors_New ''session expired'') ErrNoRows \<and>
   (primary_keys db \<and> \<lparr>s_id = session, s_expiry = expiry\<rparr> \<in> set (sessions db) \<and>
    - (2 ^ 63) \<le> expiry \<and> expiry + unixToInternal < 2 ^ 63 \<longrightarrow>
      snd (IsValidSession db now session) =
        (if now > expiry * Second then Some (errors_New ''session expired'') else None)) \<and>
   (primary_keys db \<and>
    (\<forall>r\<in>set (sessions db). - (2 ^ 63) \<le> s_expiry r \<and> s_expiry r + unixToInternal < 2 ^ 63) \<longrightarrow>
      (snd (IsValidSession db now session) = None \<longleftrightarrow>
         (\<exists>e. \<lparr>s_id = session, s_expiry = e\<rparr> \<in> set (sessions db) \<and> now \<le> e * Second)))"
proof -
  have unchanged: "fst (IsValidSession db now session) = db"
    by (simp add: IsValidSession_def Let_def split: sum.splits)
  have absent: "snd (IsValidSession db now session) = Some (fmt_Errorf ''unable to scan row'' ErrNoRows)"
    if "session \<notin> set (map s_id (sessions db))"
    using isValidSessionStmt_absent[OF that] by (simp add: IsValidSession_def)
  have stored: "snd (IsValidSession db now session) =
        (if now > e * Second then Some (errors_New ''session expired'') else None)"
    if "primary_keys db" "\<lparr>s_id = session, s_expiry = e\<rparr> \<in> set (sessions db)"
      "- (2 ^ 63) \<le> e" "e + unixToInternal < 2 ^ 63" for e
  proof -
    have "- (2 ^ 63) \<le> e + unixToInternal" using that(3) by (simp add: unixToInternal_def)
    then have "time_Unix e 0 = e * Second" using that(4) by (simp add: time_Unix_in_range)
    with isValidSessionStmt_stored[OF that(1,2)] show ?thesis
      by (simp add: IsValidSession_def time_Since_pos)
  qed
  have iff: "snd (IsValidSession db now session) = None \<longleftrightarrow>
         (\<exists>e. \<lparr>s_id = session, s_expiry = e\<rparr> \<in> set (sessions db) \<and> now \<le> e * Second)"
    if pk: "primary_keys db"
      and rng: "\<forall>r\<in>set (sessions db). - (2 ^ 63) \<le> s_expiry r \<and> s_expiry r + unixToInternal < 2 ^ 63"
  proof (cases "session \<in> set (map s_id (sessions db))")
    case True
    then obtain r where r: "r \<in> set (sessions db)" "s_id r = session" by auto
    have "\<lparr>s_id = session, s_expiry = s_expiry r\<rparr> = r" using r(2) by (cases r) simp
    with r(1) have mem: "\<lparr>s_id = session, s_expiry = s_expiry r\<rparr> \<in> set (sessions db)"
      by (simp only:)
    have b: "- (2 ^ 63) \<le> s_expiry r" "s_expiry r + unixToInternal < 2 ^ 63"
      using rng r(1) by blast+
    have uniq: "e = s_expiry r" if "\<lparr>s_id = session, s_expiry = e\<rparr> \<in> set (sessions db)" for e
      using isValidSessionStmt_stored[OF pk that] isValidSessionStmt_stored[OF pk mem] by simp
    show ?thesis
    proof
      assume "snd (IsValidSession db now session) = None"
      with stored[OF pk mem b] have "now \<le> s_expiry r * Second" by (simp split: if_splits)
      with mem show "\<exists>e. \<lparr>s_id = session, s_expiry = e\<rparr> \<in> set (sessions db) \<and> now \<le> e * Second"
        by blast
    next
      assume "\<exists>e. \<lparr>s_id = session, s_expiry = e\<rparr> \<in> set (sessions db) \<and> now \<le> e * Second"
      then obtain e where e: "\<lparr>s_id = session, s_expiry = e\<rparr> \<in> set (sessions db)"
        "now \<le> e * Second" by blast
      from uniq[OF e(1)] e(2) have "now \<le> s_expiry r * Second" by simp
      with stored[OF pk mem b] show "snd (IsValidSession db now session) = None" by simp
    qed
  next
    case False
    then have "\<lparr>s_id = session, s_expiry = e\<rparr> \<notin> set (sessions db)" for e by force
    with absent[OF False] show ?thesis by simp
  qed
  have e1: "errors_Is (fmt_Errorf ''unable to scan row'' ErrNoRows) ErrNoRows" by simp
  have e2: "\<not> errors_Is (errors_New ''session expired'') ErrNoRows" by simp
  show ?thesis using unchanged absent stored iff e1 e2 by blast
qed

theorem IsValidSession_contract_witness:
  "fst (IsValidSession db_a (time_Unix 7200 0) ''tok'') = db_a \<and>
   snd (IsValidSession db_a (time_Unix 7200 0) ''none'') =
     Some (fmt_Errorf ''unable to scan row'' ErrNoRows) \<and>
   snd (IsValidSession db_a (time_Unix 7200 0) ''tok'') = None \<and>
   snd (IsValidSession db_a (time_Unix 7200 1) ''tok'') = Some (errors_New ''session expired'')"
proof -
  have pk: "primary_keys db_a" by (simp add: primary_keys_def db_a_def)
  have mem: "\<lparr>s_id = ''tok'', s_expiry = 7200\<rparr> \<in> set (sessions db_a)" by (simp add: db_a_def)
  have absent: "''none'' \<notin> set (map s_id (sessions db_a))" by (simp add: db_a_def)
  have rng: "- (2 ^ 63) \<le> (7200::int) \<and> (7200::int) + unixToInternal < 2 ^ 63"
    by (simp add: unixToInternal_def)
  show ?thesis
    using pk mem absent rng
          IsValidSession_contract [of db_a "time_Unix 7200 0" "''tok''" 7200]
          IsValidSession_contract [of db_a "time_Unix 7200 0" "''none''" 7200]
          IsValidSession_contract [of db_a "time_Unix 7200 1" "''tok''" 7200]
    by (simp add: Second_def)
qed

text \<open>
  Beyond that range the addition in \<^verbatim>\<open>time.Unix\<close> wraps around: a token stored
  with the largest 64-bit expiry reads as an instant long past and is reported expired.
\<close>

lemma IsValidSession_wraps:
  "snd (IsValidSession (db_a\<lparr>sessions := [\<lparr>s_id = ''tok'', s_expiry = 9223372036854775807\<rparr>]\<rparr>)
          (time_Unix 7200 0) ''tok'') = Some (errors_New ''session expired'')"
  by (simp add: IsValidSession_def isValidSessionStmt_def time_Since_pos time_Unix_def
                int64_def unixToInternal_def Second_def)

text \<open>
  C9 (as stated) fails: the table \<^verbatim>\<open>sessions\<close> has the token as its primary key, so
  saving a token that is already stored is refused by the store; the operation returns
  the error and the table still holds the token once.
\<close>

theorem SaveSession_duplicate_counterexample:
  "sessions db_a = [\<lparr>s_id = ''tok'', s_expiry = 7200\<rparr>] \<and>
   SaveSession db_a (time_Unix 5000 0) ''tok'' =
     (db_a, Some (fmt_Errorf ''unable to save session'' ErrConstraintPrimaryKey))"
  by (simp add: SaveSession_def saveSessionStmt_def db_a_def)

text \<open>
  C9 (as amended). \<^verbatim>\<open>SaveSession\<close> makes no check of its own. A token that is not
  stored is appended to the table with the expiry, in seconds, of one hour after the
  current time. A token that is already stored is refused by the primary key of the
  table: the operation fails and the store is unchanged. Either way the primary keys
  still hold.
\<close>

theorem SaveSession_contract:
  "SaveSession db now session =
     (if session \<in> set (map s_id (sessions db))
      then (db, Some (fmt_Errorf ''unable to save session'' ErrConstraintPrimaryKey))
      else (db\<lparr>sessions := sessions db @
                   [\<lparr>s_id = session, s_expiry = (now + 3600 * 1000000000) div 1000000000\<rparr>]\<rparr>,
            None)) \<and>
   (primary_keys db \<longrightarrow> primary_keys (fst (SaveSession db now session)))"
  by (auto simp: SaveSession_def saveSessionStmt_def time_Add_def Hour_def Second_def
                 Time_Unix_def primary_keys_def)

theorem SaveSession_contract_witness:
  "SaveSession db_a (time_Unix 5000 0) ''new'' =
     (db_a\<lparr>sessions := [\<lparr>s_id = ''tok'', s_expiry = 7200\<rparr>, \<lparr>s_id = ''new'', s_expiry = 8600\<rparr>]\<rparr>,
      None) \<and>
   primary_keys db_a \<and>
   primary_keys (fst (SaveSession db_a (time_Unix 5000 0) ''new''))"
proof -
  have pk: "primary_keys db_a" by (simp add: primary_keys_def db_a_def)
  show ?thesis
    using pk SaveSession_contract [of db_a "time_Unix 5000 0" "''new''"]
    by (simp add: db_a_def primary_keys_def)
qed

text \<open>A session that has just been saved is valid until its expiry.\<close>

lemma SaveSession_then_IsValidSession:
  assumes "primary_keys db" and "SaveSession db now session = (db', None)"
    and "now \<le> now'" and "now' \<le> time_Unix (Time_Unix (time_Add now Hour)) 0"
  shows "snd (IsValidSession db' now' session) = None"
proof -
  from assms(2) have new: "session \<notin> set (map s_id (sessions db))"
    and db': "db' = db\<lparr>sessions := sessions db @
                   [\<lparr>s_id = session, s_expiry = Time_Unix (time_Add now Hour)\<rparr>]\<rparr>"
    by (auto simp: SaveSession_def saveSessionStmt_def split: if_splits)
  have pk: "primary_keys db'" using assms(1) new by (auto simp: primary_keys_def db')
  have "\<lparr>s_id = session, s_expiry = Time_Unix (time_Add now Hour)\<rparr> \<in> set (sessions db')"
    by (simp add: db')
  from isValidSessionStmt_stored[OF pk this] assms(4) show ?thesis
    by (simp add: IsValidSession_def time_Since_pos)
qed

subsection \<open>Decoding the resolution\<close>

lemma Resolution_field_scanComments [simp]:
  "Resolution (scanComments inc rows) = Resolution inc"
  by (induction rows arbitrary: inc) simp_all

lemma Id_field_scanComments [simp]:
  "Id (scanComments inc rows) = Id inc"
  by (induction rows arbitrary: inc) simp_all

lemma viewIncidentStmt_stored:
  assumes "primary_keys db" and "row \<in> set (incidents db)"
  shows "viewIncidentStmt db (i_id row) = [row]"
proof -
  have "distinct (map i_id (incidents db))" using assms(1) by (simp add: primary_keys_def)
  from distinct_key_filter[OF this assms(2) refl] show ?thesis
    by (simp add: viewIncidentStmt_def)
qed

lemma ViewIncident_stored:
  assumes "primary_keys db" and "row \<in> set (incidents db)"
    and "scanIncident (Inr row) = Inr inc"
  shows "ViewIncident db (i_id row) =
           Inr ((scanComments inc (viewCommentsStmt db (i_id row)))
                  \<lparr>ReviewerComments :=
                     sort_Sort ByTimestamp_Less
                       (ReviewerComments (scanComments inc (viewCommentsStmt db (i_id row))))\<rparr>)"
  using viewIncidentStmt_stored[OF assms(1,2)] assms(3)
  by (simp add: ViewIncident_def Let_def)

lemma scanRows_member:
  assumes "scanRows rows acc = Inr incs" and "row \<in> set rows"
    and "scanIncident (Inr row) = Inr inc"
  shows "inc \<in> set incs"
proof -
  from scanRows_Inr[OF assms(1)] obtain new where new: "incs = acc @ new"
    and rel: "list_all2 (\<lambda>row inc. scanIncident (Inr row) = Inr inc) rows new" by blast
  from list_all2_scan_set[OF rel, of inc] assms(2,3) have "inc \<in> set new" by blast
  with new show ?thesis by simp
qed

lemma distinct_key_eq:
  "distinct (map f xs) \<Longrightarrow> x \<in> set xs \<Longrightarrow> y \<in> set xs \<Longrightarrow> f x = f y \<Longrightarrow> x = y"
  by (auto simp: distinct_map dest: inj_onD)

lemma IncidentsWithoutReview_members:
  assumes "IncidentsWithoutReview db = Inr incs"
  shows "inc \<in> set incs \<longleftrightarrow>
           (\<exists>r\<in>set (incidents db). i_resolution r = ''RESOLUTION_UNSPECIFIED'' \<and>
               scanIncident (Inr r) = Inr inc)"
proof -
  have "list_all2 (\<lambda>row inc. scanIncident (Inr row) = Inr inc)
          (incidentsWithoutReviewStmt db (Resolution_String Resolution_RESOLUTION_UNSPECIFIED)) incs"
    using assms by (simp add: IncidentsWithoutReview_def scanRows_Nil_Inr)
  from list_all2_scan_set[OF this, of inc] show ?thesis
    by (auto simp: incidentsWithoutReviewStmt_def)
qed

lemma IncidentsInRadius_members:
  assumes "IncidentsInRadius distance db center radius = Inr incs"
  shows "inc \<in> set incs \<longleftrightarrow>
           (\<exists>r\<in>set (incidents db).
               (i_resolution r = ''RESOLUTION_ACCEPTED'' \<or> i_resolution r = ''RESOLUTION_ALERTED'') \<and>
               distance (Lat center) (Lon center) (i_lat r) (i_lon r) \<le> radius \<and>
               scanIncident (Inr r) = Inr inc)"
proof -
  let ?rel = "\<lambda>row inc. scanIncident (Inr row) = Inr inc"
  let ?del = "\<lambda>i. case Coordinates i of
                   None \<Rightarrow> Inl PanicNilDereference
                 | Some co \<Rightarrow> Inr (distance (Lat center) (Lon center) (Lat co) (Lon co) > radius)"
  from assms obtain incs0 where scan: "scanRows (incidentsInRadiusStmt db) [] = Inr incs0"
    and del: "slices_DeleteFunc incs0 ?del = Inr incs"
    by (auto simp: IncidentsInRadius_def split: sum.splits)
  have rel: "list_all2 ?rel (incidentsInRadiusStmt db) incs0"
    using scan by (rule scanRows_Nil_Inr)
  note mem0 = list_all2_scan_set[OF rel]
  have "\<forall>inc\<in>set incs0. \<exists>d. ?del inc = Inr d"
  proof
    fix inc assume "inc \<in> set incs0"
    with mem0 show "\<exists>d. ?del inc = Inr d" by (auto simp: scanIncident_row)
  qed
  from slices_DeleteFunc_total[OF this] del
  have incs: "incs = filter (\<lambda>x. ?del x = Inr False) incs0" by simp
  show ?thesis
  proof
    assume "inc \<in> set incs"
    then have i0: "inc \<in> set incs0" and keep: "?del inc = Inr False" by (simp_all add: incs)
    from i0 mem0 obtain r where r: "r \<in> set (incidentsInRadiusStmt db)" "?rel r inc" by blast
    from r(2) have "Coordinates inc = Some \<lparr>Lat = i_lat r, Lon = i_lon r\<rparr>"
      by (auto simp: scanIncident_row)
    with keep have "distance (Lat center) (Lon center) (i_lat r) (i_lon r) \<le> radius" by simp
    with r show "\<exists>r\<in>set (incidents db).
               (i_resolution r = ''RESOLUTION_ACCEPTED'' \<or> i_resolution r = ''RESOLUTION_ALERTED'') \<and>
               distance (Lat center) (Lon center) (i_lat r) (i_lon r) \<le> radius \<and>
               scanIncident (Inr r) = Inr inc"
      by (auto simp: incidentsInRadiusStmt_def)
  next
    assume "\<exists>r\<in>set (incidents db).
               (i_resolution r = ''RESOLUTION_ACCEPTED'' \<or> i_resolution r = ''RESOLUTION_ALERTED'') \<and>
               distance (Lat center) (Lon center) (i_lat r) (i_lon r) \<le> radius \<and>
               scanIncident (Inr r) = Inr inc"
    then obtain r where r: "r \<in> set (incidentsInRadiusStmt db)"
      "distance (Lat center) (Lon center) (i_lat r) (i_lon r) \<le> radius" "?rel r inc"
      by (auto simp: incidentsInRadiusStmt_def)
    from r(1,3) mem0 have i0: "inc \<in> set incs0" by blast
    from r(3) have "Coordinates inc = Some \<lparr>Lat = i_lat r, Lon = i_lon r\<rparr>"
      by (auto simp: scanIncident_row)
    with r(2) have "?del inc = Inr False" by simp
    with i0 show "inc \<in> set incs" by (simp add: incs)
  qed
qed

lemma scan_Id: "scanIncident (Inr r) = Inr inc \<Longrightarrow> Id inc = i_id r"
  by (auto simp: scanIncident_row)

lemma unknown_label_not_among:
  assumes pk: "primary_keys db" and row: "row \<in> set (incidents db)"
    and lab: "Resolution_value (i_resolution row) = None"
    and all: "\<And>inc. inc \<in> set incs \<Longrightarrow> \<exists>r\<in>set (incidents db).
                (i_resolution r = ''RESOLUTION_UNSPECIFIED'' \<or>
                 i_resolution r = ''RESOLUTION_ACCEPTED'' \<or>
                 i_resolution r = ''RESOLUTION_ALERTED'') \<and> scanIncident (Inr r) = Inr inc"
  shows "i_id row \<notin> Id ` set incs"
proof
  assume "i_id row \<in> Id ` set incs"
  then obtain inc where inc: "inc \<in> set incs" "Id inc = i_id row" by auto
  from all[OF inc(1)] obtain r where r: "r \<in> set (incidents db)"
    "i_resolution r = ''RESOLUTION_UNSPECIFIED'' \<or> i_resolution r = ''RESOLUTION_ACCEPTED'' \<or>
     i_resolution r = ''RESOLUTION_ALERTED''"
    "scanIncident (Inr r) = Inr inc" by blast
  from scan_Id[OF r(3)] inc(2) have "i_id r = i_id row" by simp
  moreover have "distinct (map i_id (incidents db))" using pk by (simp add: primary_keys_def)
  ultimately have "r = row" using r(1) row by (auto dest: distinct_key_eq)
  with r(2) have "Resolution_value (i_resolution row) \<noteq> None"
    by (auto simp: Resolution_value_def)
  with lab show False by simp
qed

text \<open>
  C10 (as amended). Let the resolution column of a stored row hold a string that is
  none of the labels of the enumeration, in a store whose primary keys hold and whose
  descriptions are not NULL. \<^verbatim>\<open>ViewIncident\<close> of the row's identifier succeeds and
  decodes the resolution as the unspecified one. The four listing operations succeed as
  well, and none of them returns an incident with the row's identifier: their queries
  compare the column with labels of the enumeration, so they return exactly the scans of
  the rows with those labels (for \<^verbatim>\<open>IncidentsInRadius\<close>, of those within the radius)
  and never read the row.
\<close>

theorem unknown_label_viewed_not_listed:
  assumes "row \<in> set (incidents db)" and "Resolution_value (i_resolution row) = None"
    and "primary_keys db" and "\<forall>r\<in>set (incidents db). i_description r \<noteq> None"
  shows "(\<exists>inc. ViewIncident db (i_id row) = Inr inc \<and> Id inc = i_id row \<and>
                Resolution inc = Resolution_RESOLUTION_UNSPECIFIED) \<and>
         (\<exists>incs. IncidentsWithoutReview db = Inr incs \<and> i_id row \<notin> Id ` set incs \<and>
            (\<forall>inc. inc \<in> set incs \<longleftrightarrow>
               (\<exists>r\<in>set (incidents db). i_resolution r = ''RESOLUTION_UNSPECIFIED'' \<and>
                   scanIncident (Inr r) = Inr inc))) \<and>
         (\<exists>incs. IncidentsInRadius distance db center radius = Inr incs \<and>
            i_id row \<notin> Id ` set incs \<and>
            (\<forall>inc. inc \<in> set incs \<longleftrightarrow>
               (\<exists>r\<in>set (incidents db).
                   (i_resolution r = ''RESOLUTION_ACCEPTED'' \<or>
                    i_resolution r = ''RESOLUTION_ALERTED'') \<and>
                   distance (Lat center) (Lon center) (i_lat r) (i_lon r) \<le> radius \<and>
                   scanIncident (Inr r) = Inr inc))) \<and>
         (\<exists>incs. IncidentsInRegion db since region = Inr incs \<and> i_id row \<notin> Id ` set incs) \<and>
         (\<exists>incs. AlertingIncidents db since region = Inr incs \<and> i_id row \<notin> Id ` set incs)"
proof (intro conjI)
  from assms(4,1) obtain d where "i_description row = Some d" by auto
  with assms(2) obtain inc where scan: "scanIncident (Inr row) = Inr inc"
    and res: "Resolution inc = Resolution_RESOLUTION_UNSPECIFIED" and ident: "Id inc = i_id row"
    by (auto simp: scanIncident_row Resolution_of_label_def)
  from ViewIncident_stored[OF assms(3,1) scan] res ident
  show "\<exists>inc. ViewIncident db (i_id row) = Inr inc \<and> Id inc = i_id row \<and>
                Resolution inc = Resolution_RESOLUTION_UNSPECIFIED" by simp
next
  have "\<forall>r\<in>set (incidentsWithoutReviewStmt db (Resolution_String Resolution_RESOLUTION_UNSPECIFIED)).
          i_description r \<noteq> None"
    using assms(4) by (simp add: incidentsWithoutReviewStmt_def)
  from scanRows_succeeds[OF this] obtain incs where run: "IncidentsWithoutReview db = Inr incs"
    by (auto simp: IncidentsWithoutReview_def)
  note mem = IncidentsWithoutReview_members[OF run]
  have "\<exists>r\<in>set (incidents db).
                (i_resolution r = ''RESOLUTION_UNSPECIFIED'' \<or>
                 i_resolution r = ''RESOLUTION_ACCEPTED'' \<or>
                 i_resolution r = ''RESOLUTION_ALERTED'') \<and> scanIncident (Inr r) = Inr inc"
    if "inc \<in> set incs" for inc
    using mem[of inc] that by blast
  from unknown_label_not_among[OF assms(3,1,2) this] run mem
  show "\<exists>incs. IncidentsWithoutReview db = Inr incs \<and> i_id row \<notin> Id ` set incs \<and>
            (\<forall>inc. inc \<in> set incs \<longleftrightarrow>
               (\<exists>r\<in>set (incidents db). i_resolution r = ''RESOLUTION_UNSPECIFIED'' \<and>
                   scanIncident (Inr r) = Inr inc))" by blast
next
  have "\<forall>r\<in>set (incidentsInRadiusStmt db). i_description r \<noteq> None"
    using assms(4) by (simp add: incidentsInRadiusStmt_def)
  from IncidentsInRadius_succeeds[OF this] obtain incs
    where run: "IncidentsInRadius distance db center radius = Inr incs" by blast
  note mem = IncidentsInRadius_members[OF run]
  have "\<exists>r\<in>set (incidents db).
                (i_resolution r = ''RESOLUTION_UNSPECIFIED'' \<or>
                 i_resolution r = ''RESOLUTION_ACCEPTED'' \<or>
                 i_resolution r = ''RESOLUTION_ALERTED'') \<and> scanIncident (Inr r) = Inr inc"
    if "inc \<in> set incs" for inc
    using mem[of inc] that by blast
  from unknown_label_not_among[OF assms(3,1,2) this] run mem
  show "\<exists>incs. IncidentsInRadius distance db center radius = Inr incs \<and>
            i_id row \<notin> Id ` set incs \<and>
            (\<forall>inc. inc \<in> set incs \<longleftrightarrow>
               (\<exists>r\<in>set (incidents db).
                   (i_resolution r = ''RESOLUTION_ACCEPTED'' \<or>
                    i_resolution r = ''RESOLUTION_ALERTED'') \<and>
                   distance (Lat center) (Lon center) (i_lat r) (i_lon r) \<le> radius \<and>
                   scanIncident (Inr r) = Inr inc))" by blast
next
  from region_queries_succeed(1)[OF assms(4)] obtain incs
    where run: "IncidentsInRegion db since region = Inr incs" by blast
  have "\<exists>r\<in>set (incidents db).
                (i_resolution r = ''RESOLUTION_UNSPECIFIED'' \<or>
                 i_resolution r = ''RESOLUTION_ACCEPTED'' \<or>
                 i_resolution r = ''RESOLUTION_ALERTED'') \<and> scanIncident (Inr r) = Inr inc"
    if "inc \<in> set incs" for inc
    using list_all2_scan_set[OF IncidentsInRegion_rows[OF run], of inc] that
    by (auto simp: incidentsInRegionStmt_def)
  from unknown_label_not_among[OF assms(3,1,2) this] run
  show "\<exists>incs. IncidentsInRegion db since region = Inr incs \<and> i_id row \<notin> Id ` set incs"
    by blast
next
  from region_queries_succeed(2)[OF assms(4)] obtain incs
    where run: "AlertingIncidents db since region = Inr incs" by blast
  have "\<exists>r\<in>set (incidents db).
                (i_resolution r = ''RESOLUTION_UNSPECIFIED'' \<or>
                 i_resolution r = ''RESOLUTION_ACCEPTED'' \<or>
                 i_resolution r = ''RESOLUTION_ALERTED'') \<and> scanIncident (Inr r) = Inr inc"
    if "inc \<in> set incs" for inc
    using list_all2_scan_set[OF AlertingIncidents_rows[OF run], of inc] that
    by (auto simp: alertingIncidentsStmt_def)
  from unknown_label_not_among[OF assms(3,1,2) this] run
  show "\<exists>incs. AlertingIncidents db since region = Inr incs \<and> i_id row \<notin> Id ` set incs"
    by blast
qed

lemma db_mixed_runs:
  "ViewIncident db_mixed ''odd'' = Inr view_odd"
  "IncidentsWithoutReview db_mixed = Inr [view_unreviewed]"
  "IncidentsInRadius meridian_distance db_mixed \<lparr>Lat = 0, Lon = 0\<rparr> 10 = Inr [view_alert]"
  "IncidentsInRegion db_mixed 0 region_scaled = Inr [view_alert]"
  "AlertingIncidents db_mixed 0 region_scaled = Inr [view_alert]"
  by code_simp+

theorem unknown_label_viewed_not_listed_witness:
  "row_odd \<in> set (incidents db_mixed) \<and> Resolution_value (i_resolution row_odd) = None \<and>
   primary_keys db_mixed \<and>
   ViewIncident db_mixed (i_id row_odd) = Inr view_odd \<and>
   Resolution view_odd = Resolution_RESOLUTION_UNSPECIFIED \<and>
   IncidentsWithoutReview db_mixed = Inr [view_unreviewed] \<and>
   IncidentsInRadius meridian_distance db_mixed \<lparr>Lat = 0, Lon = 0\<rparr> 10 = Inr [view_alert] \<and>
   IncidentsInRegion db_mixed 0 region_scaled = Inr [view_alert] \<and>
   AlertingIncidents db_mixed 0 region_scaled = Inr [view_alert] \<and>
   i_id row_odd \<notin> Id ` set [view_unreviewed] \<and> i_id row_odd \<notin> Id ` set [view_alert]"
proof -
  have mem: "row_odd \<in> set (incidents db_mixed)" by (simp add: db_mixed_def)
  have lab: "Resolution_value (i_resolution row_odd) = None"
    by (simp add: row_odd_def Resolution_value_def)
  have pk: "primary_keys db_mixed"
    by (simp add: primary_keys_def db_mixed_def row_odd_def row_unreviewed_def row_alert_def)
  have desc: "\<forall>r\<in>set (incidents db_mixed). i_description r \<noteq> None"
    by (simp add: db_mixed_def row_odd_def row_unreviewed_def row_alert_def)
  have ident: "i_id row_odd = ''odd''" by (simp add: row_odd_def)
  show ?thesis
    using mem lab pk db_mixed_runs
          unknown_label_viewed_not_listed [OF mem lab pk desc, of meridian_distance
            "\<lparr>Lat = 0, Lon = 0\<rparr>" 10 0 region_scaled]
    by (simp add: ident view_odd_def view_unreviewed_def view_alert_def)
qed

text \<open>
  C10 (as stated) fails for the listing operations. The row \<^verbatim>\<open>odd\<close> of the store
  \<open>db_odd\<close> holds the string \<^verbatim>\<open>7\<close> in its resolution column; \<^verbatim>\<open>ViewIncident\<close>
  decodes it as the unspecified resolution, yet \<^verbatim>\<open>IncidentsWithoutReview\<close>, which
  lists the incidents of the unspecified resolution, does not return it, and the three
  other listing operations leave it out although it lies inside the radius and the
  region.
\<close>

theorem unknown_label_listing_counterexample:
  "incidents db_odd = [row_a, row_odd] \<and> i_resolution row_odd = ''7'' \<and>
   Resolution_value ''7'' = None \<and>
   ViewIncident db_odd ''odd'' = Inr view_odd \<and>
   Resolution view_odd = Resolution_RESOLUTION_UNSPECIFIED \<and>
   IncidentsWithoutReview db_odd = Inr [] \<and>
   IncidentsInRadius meridian_distance db_odd \<lparr>Lat = 0, Lon = 0\<rparr> 10 = Inr [view_a] \<and>
   IncidentsInRegion db_odd 0 region_scaled = Inr [view_a] \<and>
   AlertingIncidents db_odd 0 region_scaled = Inr []"
  by code_simp

text \<open>
  The four listing queries compare the resolution column with labels of the
  enumeration, so they never select a row with another string.
\<close>

lemma unknown_label_never_listed:
  assumes "Resolution_value (i_resolution row) = None"
  shows "row \<notin> set (incidentsWithoutReviewStmt db (Resolution_String Resolution_RESOLUTION_UNSPECIFIED))"
    and "row \<notin> set (incidentsInRadiusStmt db)"
    and "row \<notin> set (incidentsInRegionStmt db since north south west east)"
    and "row \<notin> set (alertingIncidentsStmt db since north south west east)"
  using assms
  by (auto simp: incidentsWithoutReviewStmt_def incidentsInRadiusStmt_def
                 incidentsInRegionStmt_def alertingIncidentsStmt_def Resolution_value_def)

subsection \<open>\<^verbatim>\<open>sort.Sort\<close> permutes the slice\<close>

lemma length_Swap [simp]: "length (Swap data i j) = length data"
  by (simp add: Swap_def)

lemma mset_Swap: "i < length data \<Longrightarrow> j < length data \<Longrightarrow> mset (Swap data i j) = mset data"
  by (simp add: Swap_def mset_swap)

lemma mset_insertionSort_inner:
  "j < length data \<Longrightarrow> mset (insertionSort_inner lessf data a j) = mset data"
proof (induction lessf data a j rule: insertionSort_inner.induct)
  case (1 lessf data a j)
  show ?case
  proof (cases "j > a \<and> lessf (data ! j) (data ! (j - 1))")
    case True
    with 1 show ?thesis by (subst insertionSort_inner.simps) (simp add: mset_Swap)
  next
    case False
    then show ?thesis by (subst insertionSort_inner.simps) auto
  qed
qed

lemma mset_insertionSort_outer:
  "b \<le> length data \<Longrightarrow> mset (insertionSort_outer lessf data a b i) = mset data"
proof (induction lessf data a b i rule: insertionSort_outer.induct)
  case (1 lessf data a b i)
  show ?case
  proof (cases "i < b")
    case True
    then have m: "mset (insertionSort_inner lessf data a i) = mset data"
      using 1(2) by (intro mset_insertionSort_inner) simp
    then have "length (insertionSort_inner lessf data a i) = length data"
      by (rule mset_eq_length)
    with 1 True m show ?thesis by (subst insertionSort_outer.simps) simp
  next
    case False
    then show ?thesis by (subst insertionSort_outer.simps) simp
  qed
qed

lemma mset_insertionSort:
  "b \<le> length data \<Longrightarrow> mset (insertionSort lessf data a b) = mset data"
  by (simp add: insertionSort_def mset_insertionSort_outer)

lemma mset_siftDown_loop:
  "first + hi \<le> length data \<Longrightarrow> mset (siftDown_loop lessf data rt hi first) = mset data"
proof (induction lessf data rt hi first rule: siftDown_loop.induct)
  case (1 lessf data rt hi first)
  show ?case
    using 1 by (subst siftDown_loop.simps) (auto simp: Let_def mset_Swap)
qed

lemma mset_siftDown:
  "first + hi \<le> length data \<Longrightarrow> mset (siftDown lessf data lo hi first) = mset data"
  by (simp add: siftDown_def mset_siftDown_loop)

lemma mset_heapSort_build:
  "first + hi \<le> length data \<Longrightarrow> mset (heapSort_build lessf data i hi first) = mset data"
proof (induction lessf data i hi first rule: heapSort_build.induct)
  case (1 lessf data i hi first)
  have m: "mset (siftDown lessf data i hi first) = mset data"
    using 1(2) by (rule mset_siftDown)
  then have "length (siftDown lessf data i hi first) = length data" by (rule mset_eq_length)
  with 1 m show ?case by (subst heapSort_build.simps) (auto simp: Let_def)
qed

lemma mset_heapSort_pop:
  "first + i < length data \<Longrightarrow> mset (heapSort_pop lessf data i lo first) = mset data"
proof (induction lessf data i lo first rule: heapSort_pop.induct)
  case (1 lessf data i lo first)
  let ?d = "Swap data first (first + i)"
  have s: "mset ?d = mset data" using 1(2) by (simp add: mset_Swap)
  have m: "mset (siftDown lessf ?d lo i first) = mset data"
    using 1(2) s by (simp add: mset_siftDown)
  then have "length (siftDown lessf ?d lo i first) = length data" by (rule mset_eq_length)
  with 1 m show ?case by (subst heapSort_pop.simps) (auto simp: Let_def)
qed

lemma mset_heapSort:
  assumes "a \<le> b" and "b \<le> length data"
  shows "mset (heapSort lessf data a b) = mset data"
proof -
  let ?d = "heapSort_build lessf data ((b - a - 1) div 2) (b - a) a"
  have m: "mset ?d = mset data" using assms by (intro mset_heapSort_build) simp
  then have len: "length ?d = length data" by (rule mset_eq_length)
  show ?thesis
  proof (cases "b - a = 0")
    case True
    with m show ?thesis by (simp add: heapSort_def Let_def)
  next
    case False
    then have "mset (heapSort_pop lessf ?d (b - a - 1) 0 a) = mset ?d"
      using assms len by (intro mset_heapSort_pop) simp
    with m False show ?thesis by (simp add: heapSort_def Let_def)
  qed
qed

subsubsection \<open>Partitioning\<close>

lemma mset_partition_loop:
  "int a < i \<Longrightarrow> j < int (length data) \<Longrightarrow> partition_loop lessf data a i j = (data', j') \<Longrightarrow>
     mset data' = mset data"
proof (induction lessf data a i j arbitrary: data' j' rule: partition_loop.induct)
  case (1 lessf data a i j)
  let ?i = "partition_up lessf data a i j"
  let ?j = "partition_down lessf data a ?i j"
  have i: "i \<le> ?i" by (rule partition_up_ge)
  have j: "?j \<le> j" by (rule partition_down_le)
  show ?case
  proof (cases "?i > ?j")
    case True
    then show ?thesis using 1(4) by (subst (asm) partition_loop.simps) (auto simp: Let_def)
  next
    case False
    let ?d = "Swap data (nat ?i) (nat ?j)"
    from False have rec: "partition_loop lessf ?d a (?i + 1) (?j - 1) = (data', j')"
      using 1(4) by (subst (asm) partition_loop.simps) (auto simp: Let_def)
    have "mset ?d = mset data" using False i j 1(2,3) by (intro mset_Swap) auto
    moreover have "mset data' = mset ?d"
      using 1(1)[OF refl refl False _ _ rec] i j 1(2,3) by simp
    ultimately show ?thesis by simp
  qed
qed

lemma mset_partition:
  assumes "a \<le> pivot" "pivot < b" "b \<le> length data"
    and "partition lessf data a b pivot = (data', mid, ap)"
  shows "mset data' = mset data"
proof -
  let ?d = "Swap data a pivot"
  let ?i = "partition_up lessf ?d a (int a + 1) (int b - 1)"
  let ?j = "partition_down lessf ?d a ?i (int b - 1)"
  have d: "mset ?d = mset data" using assms(1-3) by (intro mset_Swap) auto
  have i: "int a + 1 \<le> ?i" by (rule partition_up_ge)
  have j: "min (int b - 1) (?i - 1) \<le> ?j" "?j \<le> int b - 1"
    by (rule partition_down_ge, rule partition_down_le)
  show ?thesis
  proof (cases "?i > ?j")
    case True
    then have "data' = Swap ?d (nat ?j) a" using assms(4) by (auto simp: partition_def Let_def)
    moreover have "mset (Swap ?d (nat ?j) a) = mset ?d"
      using assms(1-3) i j by (intro mset_Swap) auto
    ultimately show ?thesis using d by simp
  next
    case False
    let ?d2 = "Swap ?d (nat ?i) (nat ?j)"
    obtain d3 j3 where l: "partition_loop lessf ?d2 a (?i + 1) (?j - 1) = (d3, j3)"
      by (cases "partition_loop lessf ?d2 a (?i + 1) (?j - 1)") auto
    then have data': "data' = Swap d3 (nat j3) a" using assms(4) False
      by (auto simp: partition_def Let_def)
    have d2: "mset ?d2 = mset ?d" using False i j assms(1-3) by (intro mset_Swap) auto
    have d3: "mset d3 = mset ?d2"
      using i j assms(1-3) by (intro mset_partition_loop[OF _ _ l]) auto
    have j3: "?i + 1 - 2 \<le> j3 \<and> j3 \<le> ?j - 1" using partition_loop_bounds[OF _ l] False by auto
    have "length d3 = length data" using d3 d2 d by (metis mset_eq_length)
    then have "mset (Swap d3 (nat j3) a) = mset d3"
      using j3 i j assms(1-3) by (intro mset_Swap) auto
    with data' d3 d2 d show ?thesis by simp
  qed
qed

lemma mset_partitionEqual_loop:
  "int a < i \<Longrightarrow> j < int (length data) \<Longrightarrow> partitionEqual_loop lessf data a i j = (data', i') \<Longrightarrow>
     mset data' = mset data"
proof (induction lessf data a i j arbitrary: data' i' rule: partitionEqual_loop.induct)
  case (1 lessf data a i j)
  let ?i = "partitionEqual_up lessf data a i j"
  let ?j = "partitionEqual_down lessf data a ?i j"
  have i: "i \<le> ?i" by (rule partitionEqual_up_ge)
  have j: "?j \<le> j" by (rule partitionEqual_down_le)
  show ?case
  proof (cases "?i > ?j")
    case True
    then show ?thesis using 1(4) by (subst (asm) partitionEqual_loop.simps) (auto simp: Let_def)
  next
    case False
    let ?d = "Swap data (nat ?i) (nat ?j)"
    from False have rec: "partitionEqual_loop lessf ?d a (?i + 1) (?j - 1) = (data', i')"
      using 1(4) by (subst (asm) partitionEqual_loop.simps) (auto simp: Let_def)
    have "mset ?d = mset data" using False i j 1(2,3) by (intro mset_Swap) auto
    moreover have "mset data' = mset ?d"
      using 1(1)[OF refl refl False _ _ rec] i j 1(2,3) by simp
    ultimately show ?thesis by simp
  qed
qed

lemma mset_partitionEqual:
  assumes "a \<le> pivot" "pivot < b" "b \<le> length data"
    and "partitionEqual lessf data a b pivot = (data', mid)"
  shows "mset data' = mset data"
proof -
  let ?d = "Swap data a pivot"
  have d: "mset ?d = mset data" using assms(1-3) by (intro mset_Swap) auto
  obtain d2 i2 where l: "partitionEqual_loop lessf ?d a (int a + 1) (int b - 1) = (d2, i2)"
    by (cases "partitionEqual_loop lessf ?d a (int a + 1) (int b - 1)") auto
  then have "data' = d2" using assms(4) by (auto simp: partitionEqual_def Let_def)
  moreover have "mset d2 = mset ?d" using assms(1-3) by (intro mset_partitionEqual_loop[OF _ _ l]) auto
  ultimately show ?thesis using d by simp
qed

subsubsection \<open>Partial insertion sort, pattern breaking, reversal\<close>

lemma mset_partialInsertionSort_left:
  "j < length data \<Longrightarrow> mset (partialInsertionSort_left lessf data j) = mset data"
proof (induction lessf data j rule: partialInsertionSort_left.induct)
  case (1 lessf data j)
  show ?case
  proof (cases "j \<ge> 1 \<and> lessf (data ! j) (data ! (j - 1))")
    case True
    then have "mset (Swap data j (j - 1)) = mset data" using 1(2) by (intro mset_Swap) auto
    with 1 True show ?thesis by (subst partialInsertionSort_left.simps) simp
  next
    case False
    then show ?thesis by (subst partialInsertionSort_left.simps) auto
  qed
qed

lemma mset_partialInsertionSort_right:
  "b \<le> length data \<Longrightarrow> 0 < j \<Longrightarrow> mset (partialInsertionSort_right lessf data j b) = mset data"
proof (induction lessf data j b rule: partialInsertionSort_right.induct)
  case (1 lessf data j b)
  show ?case
  proof (cases "j < b \<and> lessf (data ! j) (data ! (j - 1))")
    case True
    then have "mset (Swap data j (j - 1)) = mset data" using 1(2,3) by (intro mset_Swap) auto
    with 1 True show ?thesis by (subst partialInsertionSort_right.simps) simp
  next
    case False
    then show ?thesis by (subst partialInsertionSort_right.simps) auto
  qed
qed

lemma partialInsertionSort_scan_range:
  "i \<le> b \<Longrightarrow> i \<le> partialInsertionSort_scan lessf data i b \<and>
     partialInsertionSort_scan lessf data i b \<le> b"
proof (induction lessf data i b rule: partialInsertionSort_scan.induct)
  case (1 lessf data i b)
  show ?case
  proof (cases "i < b \<and> \<not> lessf (data ! i) (data ! (i - 1))")
    case True
    then have "partialInsertionSort_scan lessf data i b =
               partialInsertionSort_scan lessf data (i + 1) b"
      by (subst partialInsertionSort_scan.simps) simp
    with 1(1) True show ?thesis by auto
  next
    case False
    then have "partialInsertionSort_scan lessf data i b = i"
      by (subst partialInsertionSort_scan.simps) auto
    with 1(2) show ?thesis by simp
  qed
qed

lemma mset_partialInsertionSort_loop:
  "b \<le> length data \<Longrightarrow> 0 < i \<Longrightarrow> i \<le> b \<Longrightarrow>
     mset (fst (partialInsertionSort_loop lessf data a b i j)) = mset data"
proof (induction lessf data a b i j rule: partialInsertionSort_loop.induct)
  case (1 lessf data a b i j)
  let ?i = "partialInsertionSort_scan lessf data i b"
  have i: "i \<le> ?i" "?i \<le> b" using partialInsertionSort_scan_range[OF 1(4)] by auto
  show ?case
  proof (cases "j < maxSteps \<and> ?i \<noteq> b \<and> \<not> b - a < shortestShifting")
    case False
    then show ?thesis by (subst partialInsertionSort_loop.simps) (auto simp: Let_def)
  next
    case True
    define d1 where "d1 = Swap data ?i (?i - 1)"
    define d2 where "d2 = (if ?i - a \<ge> 2 then partialInsertionSort_left lessf d1 (?i - 1) else d1)"
    define d3 where "d3 = (if b - ?i \<ge> 2 then partialInsertionSort_right lessf d2 (?i + 1) b else d2)"
    have ib: "?i < b" using True i by simp
    have m1: "mset d1 = mset data" unfolding d1_def using ib 1(2) by (intro mset_Swap) auto
    then have l1: "length d1 = length data" by (rule mset_eq_length)
    have m2: "mset d2 = mset d1" unfolding d2_def using ib 1(2) l1
      by (simp add: mset_partialInsertionSort_left)
    then have l2: "length d2 = length data" using l1 by (metis mset_eq_length)
    have m3: "mset d3 = mset d2" unfolding d3_def using 1(2) l2
      by (simp add: mset_partialInsertionSort_right)
    then have l3: "length d3 = length data" using l2 by (metis mset_eq_length)
    have "mset (fst (partialInsertionSort_loop lessf d3 a b ?i (j + 1))) = mset d3"
    proof (rule 1(1)[OF _ refl _ _ d1_def d2_def d3_def])
      show "j < maxSteps" "?i \<noteq> b" "\<not> b - a < shortestShifting" using True by auto
      show "b \<le> length d3" using 1(2) l3 by simp
      show "0 < ?i" using 1(3) i by simp
      show "?i \<le> b" using i by simp
    qed
    moreover have "partialInsertionSort_loop lessf data a b i j =
        partialInsertionSort_loop lessf d3 a b ?i (j + 1)"
      using True by (subst partialInsertionSort_loop.simps) (simp add: Let_def d1_def d2_def d3_def)
    ultimately show ?thesis using m1 m2 m3 by simp
  qed
qed

lemma mset_partialInsertionSort:
  "a < b \<Longrightarrow> b \<le> length data \<Longrightarrow> mset (fst (partialInsertionSort lessf data a b)) = mset data"
  by (simp add: partialInsertionSort_def mset_partialInsertionSort_loop)

lemma bits_Len_bounds: "0 < n \<Longrightarrow> n < 2 ^ bits_Len n \<and> 2 ^ bits_Len n \<le> 2 * n"
proof (induction n rule: bits_Len.induct)
  case (1 n)
  have step: "bits_Len n = Suc (bits_Len (n div 2))" using 1(2) by (subst bits_Len.simps) simp
  show ?case
  proof (cases "n div 2 = 0")
    case True
    with 1(2) have "n = 1" by auto
    moreover have "bits_Len 0 = 0" by (subst bits_Len.simps) simp
    ultimately show ?thesis using step by simp
  next
    case False
    with 1 have "n div 2 < 2 ^ bits_Len (n div 2) \<and> 2 ^ bits_Len (n div 2) \<le> 2 * (n div 2)"
      by simp
    with step show ?thesis by auto
  qed
qed

lemma breakPatterns_other:
  assumes "0 < len"
  shows "(let other = x AND (nextPowerOfTwo len - 1) in
          if other \<ge> len then other - len else other) < len"
proof -
  define other where "other = x AND (nextPowerOfTwo len - 1)"
  have "nextPowerOfTwo len = 2 ^ bits_Len len" by (simp add: nextPowerOfTwo_def)
  then have "other = x AND mask (bits_Len len)" by (simp add: other_def mask_eq_exp_minus_1)
  then have "other = x mod 2 ^ bits_Len len" by (simp add: and_mask_mod_2p take_bit_eq_mod flip: take_bit_eq_mask)
  then have "other < 2 ^ bits_Len len" by simp
  with bits_Len_bounds[OF assms] have "other < 2 * len" by simp
  then have "(if other \<ge> len then other - len else other) < len" by auto
  then show ?thesis by (simp only: other_def Let_def)
qed

lemma mset_breakPatterns_loop:
  "0 < len \<Longrightarrow> a + len \<le> length data \<Longrightarrow> idx + i + n \<le> a + len \<Longrightarrow>
     mset (breakPatterns_loop data a len random (nextPowerOfTwo len) idx i n) = mset data"
proof (induction n arbitrary: data random i)
  case 0
  then show ?case by simp
next
  case (Suc n)
  define r where "r = xorshift_Next random"
  define other where "other = (let other = unat r AND (nextPowerOfTwo len - 1) in
          if other \<ge> len then other - len else other)"
  have o: "other < len" unfolding other_def using Suc.prems(1) by (rule breakPatterns_other)
  define d where "d = Swap data (idx + i) (a + other)"
  have m: "mset d = mset data" unfolding d_def using o Suc.prems by (intro mset_Swap) auto
  then have "length d = length data" by (rule mset_eq_length)
  then have "mset (breakPatterns_loop d a len r (nextPowerOfTwo len) idx (i + 1) n) = mset d"
    using Suc.prems by (intro Suc.IH) auto
  moreover have "breakPatterns_loop data a len random (nextPowerOfTwo len) idx i (Suc n) =
       breakPatterns_loop d a len r (nextPowerOfTwo len) idx (i + 1) n"
    by (simp add: Let_def d_def other_def r_def)
  ultimately show ?case using m by simp
qed

lemma mset_breakPatterns:
  assumes "a \<le> b" and "b \<le> length data"
  shows "mset (breakPatterns data a b) = mset data"
proof (cases "b - a \<ge> 8")
  case True
  have "mset (breakPatterns_loop data a (b - a) (word_of_nat (b - a)) (nextPowerOfTwo (b - a))
          (a + (b - a) div 4 * 2 - 1) 0 3) = mset data"
    using True assms by (intro mset_breakPatterns_loop) auto
  with True show ?thesis by (simp add: breakPatterns_def Let_def)
next
  case False
  then show ?thesis by (simp add: breakPatterns_def Let_def)
qed

lemma mset_reverseRange_loop:
  "j < length data \<Longrightarrow> mset (reverseRange_loop data i j) = mset data"
proof (induction data i j rule: reverseRange_loop.induct)
  case (1 data i j)
  show ?case
  proof (cases "i < j")
    case True
    with 1 show ?thesis by (subst reverseRange_loop.simps) (simp add: mset_Swap)
  next
    case False
    then show ?thesis by (subst reverseRange_loop.simps) simp
  qed
qed

lemma mset_reverseRange:
  "a < b \<Longrightarrow> b \<le> length data \<Longrightarrow> mset (reverseRange data a b) = mset data"
  by (simp add: reverseRange_def mset_reverseRange_loop)

subsubsection \<open>The main loop\<close>

lemma median_cases:
  "fst (median lessf data x y z s) = x \<or> fst (median lessf data x y z s) = y \<or>
   fst (median lessf data x y z s) = z"
  by (simp add: median_def order2_def Let_def split: if_splits)

lemma medianAdjacent_cases:
  "fst (medianAdjacent lessf data x s) = x - 1 \<or> fst (medianAdjacent lessf data x s) = x \<or>
   fst (medianAdjacent lessf data x s) = x + 1"
  using median_cases[of lessf data "x - 1" x "x + 1" s] by (simp add: medianAdjacent_def)

lemma choosePivot_bounds:
  assumes "12 < b - a"
  shows "a \<le> fst (choosePivot lessf data a b) \<and> fst (choosePivot lessf data a b) < b"
proof -
  define l where "l = b - a"
  define q where "q = l div 4"
  have q: "3 \<le> q" "4 * q \<le> l" using assms by (auto simp: q_def l_def)
  have b: "b = a + l" using assms by (simp add: l_def)
  show ?thesis
  proof (cases "l \<ge> shortestNinther")
    case False
    define m where "m = median lessf data (a + q) (a + q * 2) (a + q * 3) 0"
    have "fst (choosePivot lessf data a b) = fst m"
      using False assms
      by (simp add: choosePivot_def Let_def l_def[symmetric] q_def[symmetric] m_def
               split: prod.splits)
    moreover have "fst m = a + q \<or> fst m = a + q * 2 \<or> fst m = a + q * 3"
      unfolding m_def by (rule median_cases)
    ultimately show ?thesis using q b by auto
  next
    case True
    then have q12: "12 \<le> q" by (simp add: shortestNinther_def q_def)
    define mi where "mi = medianAdjacent lessf data (a + q) 0"
    define mj where "mj = medianAdjacent lessf data (a + q * 2) (snd mi)"
    define mk where "mk = medianAdjacent lessf data (a + q * 3) (snd mj)"
    define m where "m = median lessf data (fst mi) (fst mj) (fst mk) (snd mk)"
    have "fst (choosePivot lessf data a b) = fst m"
      using True assms
      by (simp add: choosePivot_def Let_def l_def[symmetric] q_def[symmetric] m_def mi_def
               mj_def mk_def split: prod.splits)
    moreover have "fst m = fst mi \<or> fst m = fst mj \<or> fst m = fst mk"
      unfolding m_def by (rule median_cases)
    moreover have "fst mi = a + q - 1 \<or> fst mi = a + q \<or> fst mi = a + q + 1"
      unfolding mi_def by (rule medianAdjacent_cases)
    moreover have "fst mj = a + q * 2 - 1 \<or> fst mj = a + q * 2 \<or> fst mj = a + q * 2 + 1"
      unfolding mj_def by (rule medianAdjacent_cases)
    moreover have "fst mk = a + q * 3 - 1 \<or> fst mk = a + q * 3 \<or> fst mk = a + q * 3 + 1"
      unfolding mk_def by (rule medianAdjacent_cases)
    ultimately show ?thesis using q q12 b by auto
  qed
qed

lemma pdqsort_unfold:
  "pdqsort lessf data a b limit wasBalanced wasPartitioned =
     (if b - a \<le> maxInsertion then insertionSort lessf data a b
      else if limit = 0 then heapSort lessf data a b
      else
        (case pdqsort_prepare lessf data a b limit wasBalanced wasPartitioned of
           (d, l, p, srt) \<Rightarrow>
             if srt then d
             else if a > 0 \<and> \<not> lessf (d ! (a - 1)) (d ! p) then
               (case partitionEqual lessf d a b p of
                  (d', mid) \<Rightarrow> pdqsort lessf d' mid b l wasBalanced wasPartitioned)
             else
               (case partition lessf d a b p of
                  (d', mid, ap) \<Rightarrow>
                    if mid - a < b - mid then
                      pdqsort lessf (pdqsort lessf d' a mid l True True)
                        (mid + 1) b l ((b - a) div 8 \<le> mid - a) ap
                    else
                      pdqsort lessf (pdqsort lessf d' (mid + 1) b l True True)
                        a mid l ((b - a) div 8 \<le> b - mid) ap)))"
  by (subst pdqsort.simps) (simp only: pdqsort_prepare_def Let_def case_prod_beta fst_conv snd_conv)

lemma mset_pdqsort_prepare:
  assumes "12 < b - a" and "b \<le> length data"
    and "pdqsort_prepare lessf data a b limit wasBalanced wasPartitioned = (d, l, p, srt)"
  shows "mset d = mset data \<and> a \<le> p \<and> p < b"
proof -
  define d1 where "d1 = (if \<not> wasBalanced then breakPatterns data a b else data)"
  define ph where "ph = choosePivot lessf d1 a b"
  define d2 where "d2 = (if snd ph = decreasingHint then reverseRange d1 a b else d1)"
  define p2 where "p2 = (if snd ph = decreasingHint then (b - 1) - (fst ph - a) else fst ph)"
  define h2 where "h2 = (if snd ph = decreasingHint then increasingHint else snd ph)"
  define ds where "ds = (if wasBalanced \<and> wasPartitioned \<and> h2 = increasingHint
             then partialInsertionSort lessf d2 a b else (d2, False))"
  have eq: "pdqsort_prepare lessf data a b limit wasBalanced wasPartitioned =
      (fst ds, (if \<not> wasBalanced then limit - 1 else limit), p2, snd ds)"
    by (simp add: pdqsort_prepare_def Let_def d1_def ph_def d2_def p2_def h2_def ds_def
             split: prod.splits)
  have ab: "a < b" "a \<le> b" using assms(1) by auto
  have m1: "mset d1 = mset data" unfolding d1_def using ab assms(2) by (simp add: mset_breakPatterns)
  then have l1: "length d1 = length data" by (rule mset_eq_length)
  have ph: "a \<le> fst ph" "fst ph < b" unfolding ph_def using choosePivot_bounds[OF assms(1)] by auto
  have m2: "mset d2 = mset d1" unfolding d2_def using ab assms(2) l1 by (simp add: mset_reverseRange)
  then have l2: "length d2 = length data" using l1 by (metis mset_eq_length)
  have p2: "a \<le> p2" "p2 < b" using ph ab by (auto simp: p2_def)
  have m3: "mset (fst ds) = mset d2" unfolding ds_def using ab assms(2) l2
    by (simp add: mset_partialInsertionSort)
  from eq assms(3) have "d = fst ds" "p = p2" by simp_all
  with m1 m2 m3 p2 show ?thesis by simp
qed

lemma pdqsort_short:
  assumes "b - a \<le> maxInsertion"
  shows "pdqsort lessf data a b limit wasBalanced wasPartitioned = insertionSort lessf data a b"
  by (subst pdqsort_unfold) (simp only: assms if_True)

lemma pdqsort_heap:
  assumes "\<not> b - a \<le> maxInsertion" and "limit = 0"
  shows "pdqsort lessf data a b limit wasBalanced wasPartitioned = heapSort lessf data a b"
  by (subst pdqsort_unfold) (simp only: assms if_False if_True simp_thms)

lemma pdqsort_sorted:
  assumes "\<not> b - a \<le> maxInsertion" and "limit \<noteq> 0"
    and "pdqsort_prepare lessf data a b limit wasBalanced wasPartitioned = (d, l, p, True)"
  shows "pdqsort lessf data a b limit wasBalanced wasPartitioned = d"
  by (subst pdqsort_unfold) (simp only: assms if_False if_True prod.case)

lemma pdqsort_equal:
  assumes "\<not> b - a \<le> maxInsertion" and "limit \<noteq> 0"
    and "pdqsort_prepare lessf data a b limit wasBalanced wasPartitioned = (d, l, p, False)"
    and "a > 0 \<and> \<not> lessf (d ! (a - 1)) (d ! p)"
    and "partitionEqual lessf d a b p = (d', mid)"
  shows "pdqsort lessf data a b limit wasBalanced wasPartitioned =
       pdqsort lessf d' mid b l wasBalanced wasPartitioned"
  by (subst pdqsort_unfold) (simp only: assms if_False if_True prod.case simp_thms)

lemma pdqsort_left:
  assumes "\<not> b - a \<le> maxInsertion" and "limit \<noteq> 0"
    and "pdqsort_prepare lessf data a b limit wasBalanced wasPartitioned = (d, l, p, False)"
    and "\<not> (a > 0 \<and> \<not> lessf (d ! (a - 1)) (d ! p))"
    and "partition lessf d a b p = (d', mid, ap)" and "mid - a < b - mid"
  shows "pdqsort lessf data a b limit wasBalanced wasPartitioned =
       pdqsort lessf (pdqsort lessf d' a mid l True True)
         (mid + 1) b l ((b - a) div 8 \<le> mid - a) ap"
  by (subst pdqsort_unfold) (simp only: assms if_False if_True prod.case)

lemma pdqsort_right:
  assumes "\<not> b - a \<le> maxInsertion" and "limit \<noteq> 0"
    and "pdqsort_prepare lessf data a b limit wasBalanced wasPartitioned = (d, l, p, False)"
    and "\<not> (a > 0 \<and> \<not> lessf (d ! (a - 1)) (d ! p))"
    and "partition lessf d a b p = (d', mid, ap)" and "\<not> mid - a < b - mid"
  shows "pdqsort lessf data a b limit wasBalanced wasPartitioned =
       pdqsort lessf (pdqsort lessf d' (mid + 1) b l True True)
         a mid l ((b - a) div 8 \<le> b - mid) ap"
  by (subst pdqsort_unfold) (simp only: assms if_False if_True prod.case)

lemma mset_pdqsort:
  "b \<le> length data \<Longrightarrow>
     mset (pdqsort lessf data a b limit wasBalanced wasPartitioned) = mset data"
proof (induction "b - a" arbitrary: data a b limit wasBalanced wasPartitioned rule: less_induct)
  case less
  show ?case
  proof (cases "b - a \<le> maxInsertion")
    case True
    then show ?thesis using less.prems by (simp add: pdqsort_short mset_insertionSort)
  next
    case long: False
    then have ab: "12 < b - a" "a < b" by (auto simp: maxInsertion_def)
    show ?thesis
    proof (cases "limit = 0")
      case True
      then show ?thesis using long less.prems ab by (simp add: pdqsort_heap mset_heapSort)
    next
      case limit: False
      obtain d l p srt where prep:
        "pdqsort_prepare lessf data a b limit wasBalanced wasPartitioned = (d, l, p, srt)"
        by (metis prod_cases4)
      from mset_pdqsort_prepare[OF ab(1) less.prems prep]
      have d: "mset d = mset data" and p: "a \<le> p" "p < b" by auto
      then have ld: "length d = length data" by (metis mset_eq_length)
      show ?thesis
      proof (cases srt)
        case True
        with prep have "pdqsort_prepare lessf data a b limit wasBalanced wasPartitioned =
            (d, l, p, True)" by simp
        from pdqsort_sorted[OF long limit this] d show ?thesis by simp
      next
        case unsorted: False
        with prep have prep: "pdqsort_prepare lessf data a b limit wasBalanced wasPartitioned =
            (d, l, p, False)" by simp
        show ?thesis
        proof (cases "a > 0 \<and> \<not> lessf (d ! (a - 1)) (d ! p)")
          case True
          obtain d' mid where pe: "partitionEqual lessf d a b p = (d', mid)" by force
          have mid: "a < mid" using partitionEqual_mid[OF pe] .
          have d': "mset d' = mset d" using mset_partitionEqual[OF p _ pe] less.prems ld by simp
          then have "length d' = length data" using ld by (metis mset_eq_length)
          then have "mset (pdqsort lessf d' mid b l wasBalanced wasPartitioned) = mset d'"
            using mid ab less.prems by (intro less.hyps) auto
          with pdqsort_equal[OF long limit prep True pe] d d' show ?thesis by simp
        next
          case False
          obtain d' mid ap where pt: "partition lessf d a b p = (d', mid, ap)"
            by (metis prod_cases3)
          have mid: "a \<le> mid" "mid < b" using partition_mid[OF ab(2) pt] by auto
          have d': "mset d' = mset d" using mset_partition[OF p _ pt] less.prems ld by simp
          then have ld': "length d' = length data" using ld by (metis mset_eq_length)
          show ?thesis
          proof (cases "mid - a < b - mid")
            case True
            let ?left = "pdqsort lessf d' a mid l True True"
            have left: "mset ?left = mset d'"
              using mid ab less.prems ld' by (intro less.hyps) auto
            then have "length ?left = length data" using ld' by (metis mset_eq_length)
            then have "mset (pdqsort lessf ?left (mid + 1) b l ((b - a) div 8 \<le> mid - a) ap) =
                       mset ?left"
              using mid ab less.prems by (intro less.hyps) auto
            with pdqsort_left[OF long limit prep False pt True] d d' left show ?thesis by simp
          next
            case right: False
            let ?right = "pdqsort lessf d' (mid + 1) b l True True"
            have r: "mset ?right = mset d'"
              using mid ab less.prems ld' by (intro less.hyps) auto
            then have "length ?right = length data" using ld' by (metis mset_eq_length)
            then have "mset (pdqsort lessf ?right a mid l ((b - a) div 8 \<le> b - mid) ap) =
                       mset ?right"
              using mid ab less.prems by (intro less.hyps) auto
            with pdqsort_right[OF long limit prep False pt right] d d' r show ?thesis by simp
          qed
        qed
      qed
    qed
  qed
qed

lemma mset_sort_Sort: "mset (sort_Sort lessf data) = mset data"
  by (simp add: sort_Sort_def Let_def mset_pdqsort)

lemma set_sort_Sort [simp]: "set (sort_Sort lessf data) = set data"
  using mset_sort_Sort[of lessf data] by (metis set_mset_mset)

lemma length_sort_Sort [simp]: "length (sort_Sort lessf data) = length data"
  using mset_sort_Sort[of lessf data] by (metis mset_eq_length)

subsection \<open>\<^verbatim>\<open>sort.Sort\<close> sorts the slice\<close>


lemma rearranged_refl [simp]: "rearranged data data a b"
  by (auto simp: rearranged_def)

lemma rearranged_length: "rearranged data data' a b \<Longrightarrow> length data' = length data"
  by (simp add: rearranged_def)

lemma rearranged_outside:
  "rearranged data data' a b \<Longrightarrow> i < length data \<Longrightarrow> i < a \<or> b \<le> i \<Longrightarrow> data' ! i = data ! i"
  by (simp add: rearranged_def)

lemma rearranged_inside:
  "rearranged data data' a b \<Longrightarrow> a \<le> i \<Longrightarrow> i < b \<Longrightarrow> \<exists>j. a \<le> j \<and> j < b \<and> data' ! i = data ! j"
  by (simp add: rearranged_def)

lemma rearranged_all:
  assumes "rearranged data data' a b" and "\<And>i. a \<le> i \<Longrightarrow> i < b \<Longrightarrow> P (data ! i)"
    and "a \<le> i" "i < b"
  shows "P (data' ! i)"
  using rearranged_inside[OF assms(1,3,4)] assms(2) by auto

lemma rearranged_trans:
  assumes "rearranged x y a b" and "rearranged y z a b"
  shows "rearranged x z a b"
  unfolding rearranged_def
proof (intro conjI allI impI)
  show "length z = length x" using assms by (simp add: rearranged_def)
next
  fix i assume "i < length x \<and> (i < a \<or> b \<le> i)"
  then show "z ! i = x ! i" using assms by (simp add: rearranged_def)
next
  fix i assume i: "a \<le> i \<and> i < b"
  then obtain j where "a \<le> j" "j < b" "z ! i = y ! j" using assms(2) by (auto simp: rearranged_def)
  moreover then obtain k where "a \<le> k" "k < b" "y ! j = x ! k"
    using assms(1) by (auto simp: rearranged_def)
  ultimately show "\<exists>j. a \<le> j \<and> j < b \<and> z ! i = x ! j" by auto
qed

lemma rearranged_mono:
  assumes "rearranged x y a' b'" and "a \<le> a'" and "b' \<le> b" and "b \<le> length x"
  shows "rearranged x y a b"
  unfolding rearranged_def
proof (intro conjI allI impI)
  show "length y = length x" using assms by (simp add: rearranged_def)
next
  fix i assume "i < length x \<and> (i < a \<or> b \<le> i)"
  then show "y ! i = x ! i" using assms by (auto simp: rearranged_def)
next
  fix i assume i: "a \<le> i \<and> i < b"
  show "\<exists>j. a \<le> j \<and> j < b \<and> y ! i = x ! j"
  proof (cases "a' \<le> i \<and> i < b'")
    case True
    then obtain j where "a' \<le> j" "j < b'" "y ! i = x ! j"
      using assms(1) by (auto simp: rearranged_def)
    then show ?thesis using assms(2,3) by (intro exI[of _ j]) auto
  next
    case False
    then have "y ! i = x ! i" using assms i by (auto simp: rearranged_def)
    then show ?thesis using i by auto
  qed
qed

lemma rearranged_Swap:
  assumes "a \<le> i" "i < b" "a \<le> j" "j < b" "b \<le> length data"
  shows "rearranged data (Swap data i j) a b"
  unfolding rearranged_def
proof (intro conjI allI impI)
  show "length (Swap data i j) = length data" by simp
next
  fix k assume "k < length data \<and> (k < a \<or> b \<le> k)"
  then show "Swap data i j ! k = data ! k" using assms by (auto simp: Swap_def)
next
  fix k assume k: "a \<le> k \<and> k < b"
  have "Swap data i j ! k = (if k = j then data ! i else if k = i then data ! j else data ! k)"
    using assms k by (auto simp: Swap_def nth_list_update)
  then show "\<exists>m. a \<le> m \<and> m < b \<and> Swap data i j ! k = data ! m"
    using assms k by (cases "k = j"; cases "k = i") auto
qed

lemma Swap_nth:
  "i < length data \<Longrightarrow> j < length data \<Longrightarrow>
     Swap data i j ! k = (if k = j then data ! i else if k = i then data ! j else data ! k)"
  by (auto simp: Swap_def nth_list_update)

lemma above_left_rearranged:
  assumes "above_left key data a b" and "rearranged data data' a b" and "a \<le> b" "b \<le> length data"
  shows "above_left key data' a b"
  unfolding above_left_def
proof (intro impI allI)
  fix i assume a: "0 < a" and i: "a \<le> i \<and> i < b"
  have "data' ! (a - 1) = data ! (a - 1)"
    using rearranged_outside[OF assms(2), of "a - 1"] a assms(3,4) by auto
  moreover have "key (data ! (a - 1)) \<le> key (data' ! i)"
    using rearranged_all[OF assms(2), of "\<lambda>x. key (data ! (a - 1)) \<le> key x" i] assms(1) a i
    by (auto simp: above_left_def)
  ultimately show "key (data' ! (a - 1)) \<le> key (data' ! i)" by simp
qed

subsubsection \<open>Insertion sort\<close>

lemma range_sorted_butD:
  "range_sorted_but key data a b j \<Longrightarrow> a \<le> p \<Longrightarrow> p < q \<Longrightarrow> q < b \<Longrightarrow> q \<noteq> j \<Longrightarrow>
     key (data ! p) \<le> key (data ! q)"
  by (simp add: range_sorted_but_def)

lemma range_sortedD:
  "range_sorted key data a b \<Longrightarrow> a \<le> p \<Longrightarrow> p < q \<Longrightarrow> q < b \<Longrightarrow>
     key (data ! p) \<le> key (data ! q)"
  by (simp add: range_sorted_def)

lemma range_sorted_but_step:
  assumes inv: "range_sorted_but key data a b j"
    and j: "a < j" "j < b" "b \<le> length data"
    and lt: "key (data ! j) < key (data ! (j - 1))"
  shows "range_sorted_but key (Swap data j (j - 1)) a b (j - 1)"
  unfolding range_sorted_but_def
proof (intro allI impI)
  let ?d = "Swap data j (j - 1)"
  fix p q assume pq: "a \<le> p \<and> p < q \<and> q < b \<and> q \<noteq> j - 1"
  have dj: "?d ! j = data ! (j - 1)" and dj1: "?d ! (j - 1) = data ! j"
    using j by (simp_all add: Swap_nth)
  have dk: "?d ! k = data ! k" if "k \<noteq> j" "k \<noteq> j - 1" for k
    using j that by (simp add: Swap_nth)
  note I = range_sorted_butD[OF inv]
  consider (qj) "q = j" "p = j - 1" | (qj') "q = j" "p < j - 1"
    | (pj) "q \<noteq> j" "p = j" | (pj1) "q \<noteq> j" "p = j - 1" | (other) "q \<noteq> j" "p \<noteq> j" "p \<noteq> j - 1"
    using pq by linarith
  then show "key (?d ! p) \<le> key (?d ! q)"
  proof cases
    case qj
    then show ?thesis using lt dj dj1 by simp
  next
    case qj'
    then have "key (data ! p) \<le> key (data ! (j - 1))" using I[of p "j - 1"] pq j by auto
    moreover have "?d ! p = data ! p" using dk[of p] qj' by auto
    ultimately show ?thesis using qj' dj by simp
  next
    case pj
    then have "key (data ! (j - 1)) \<le> key (data ! q)" using I[of "j - 1" q] pq j by auto
    moreover have "?d ! q = data ! q" using dk[of q] pj pq by auto
    ultimately show ?thesis using pj dj by simp
  next
    case pj1
    then have "key (data ! j) \<le> key (data ! q)" using I[of j q] pq j by auto
    moreover have "?d ! q = data ! q" using dk[of q] pj1 pq by auto
    ultimately show ?thesis using pj1 dj1 by simp
  next
    case other
    then have "key (data ! p) \<le> key (data ! q)" using I[of p q] pq by auto
    moreover have "?d ! q = data ! q" "?d ! p = data ! p" using dk[of q] dk[of p] other pq by auto
    ultimately show ?thesis by simp
  qed
qed

lemma range_sorted_but_stop:
  assumes inv: "range_sorted_but key data a b j"
    and j: "a \<le> j" "j < b"
    and le: "a < j \<Longrightarrow> key (data ! (j - 1)) \<le> key (data ! j)"
  shows "range_sorted key data a b"
  unfolding range_sorted_def
proof (intro allI impI)
  fix p q assume pq: "a \<le> p \<and> p < q \<and> q < b"
  note I = range_sorted_butD[OF inv]
  consider (a) "q \<noteq> j" | (b) "q = j" "p = j - 1" | (c) "q = j" "p < j - 1"
    using pq by linarith
  then show "key (data ! p) \<le> key (data ! q)"
  proof cases
    case a
    then show ?thesis using I[of p q] pq by auto
  next
    case b
    then show ?thesis using le pq by auto
  next
    case c
    then have "key (data ! p) \<le> key (data ! (j - 1))" using I[of p "j - 1"] pq by auto
    moreover have "key (data ! (j - 1)) \<le> key (data ! j)" using le c pq by auto
    ultimately show ?thesis using c by simp
  qed
qed

lemma insertionSort_inner_sorts:
  "\<forall>x y. lessf x y = (key x < key y) \<Longrightarrow> a \<le> j \<Longrightarrow> j < b \<Longrightarrow> b \<le> length data \<Longrightarrow>
   range_sorted_but key data a b j \<Longrightarrow>
     rearranged data (insertionSort_inner lessf data a j) a b \<and>
     range_sorted key (insertionSort_inner lessf data a j) a b"
proof (induction lessf data a j rule: insertionSort_inner.induct)
  case (1 lessf data a j)
  note L = 1(2) and bnd = 1(3,4,5) and inv = 1(6)
  show ?case
  proof (cases "j > a \<and> lessf (data ! j) (data ! (j - 1))")
    case True
    let ?d = "Swap data j (j - 1)"
    have lt: "key (data ! j) < key (data ! (j - 1))" using True L by simp
    have inv': "range_sorted_but key ?d a b (j - 1)"
      using inv True bnd lt by (intro range_sorted_but_step) auto
    have sw: "rearranged data ?d a b" using bnd True by (intro rearranged_Swap) auto
    have "rearranged ?d (insertionSort_inner lessf ?d a (j - 1)) a b \<and>
          range_sorted key (insertionSort_inner lessf ?d a (j - 1)) a b"
      using True bnd inv' L by (intro 1(1)) auto
    moreover have "insertionSort_inner lessf data a j = insertionSort_inner lessf ?d a (j - 1)"
      using True by (subst insertionSort_inner.simps) simp
    ultimately show ?thesis using sw rearranged_trans by metis
  next
    case False
    then have stop: "insertionSort_inner lessf data a j = data"
      by (subst insertionSort_inner.simps) auto
    have "range_sorted key data a b"
      using inv bnd False L by (intro range_sorted_but_stop[of key data a b j]) auto
    with stop show ?thesis by simp
  qed
qed

lemma insertionSort_outer_sorts:
  "\<forall>x y. lessf x y = (key x < key y) \<Longrightarrow> a < i \<Longrightarrow> i \<le> b \<Longrightarrow> b \<le> length data \<Longrightarrow>
   range_sorted key data a i \<Longrightarrow>
     rearranged data (insertionSort_outer lessf data a b i) a b \<and>
     range_sorted key (insertionSort_outer lessf data a b i) a b"
proof (induction lessf data a b i rule: insertionSort_outer.induct)
  case (1 lessf data a b i)
  note L = 1(2) and bnd = 1(3,4,5) and inv = 1(6)
  show ?case
  proof (cases "i < b")
    case True
    let ?d = "insertionSort_inner lessf data a i"
    have but: "range_sorted_but key data a (i + 1) i"
      using inv by (auto simp: range_sorted_but_def range_sorted_def)
    have ai: "a \<le> i" "i < i + 1" "i + 1 \<le> length data" using bnd True by auto
    from insertionSort_inner_sorts[OF L ai but]
    have d: "rearranged data ?d a (i + 1)" "range_sorted key ?d a (i + 1)" by auto
    have len: "length ?d = length data" using d(1) by (rule rearranged_length)
    have bnd': "a < i + 1" "i + 1 \<le> b" "b \<le> length ?d" using bnd True len by auto
    from 1(1)[OF True L bnd' d(2)]
    have r: "rearranged ?d (insertionSort_outer lessf ?d a b (i + 1)) a b"
      and s: "range_sorted key (insertionSort_outer lessf ?d a b (i + 1)) a b" by auto
    have r0: "rearranged data ?d a b"
      using d(1) by (rule rearranged_mono) (use True bnd in auto)
    have eq: "insertionSort_outer lessf data a b i = insertionSort_outer lessf ?d a b (i + 1)"
      using True by (subst insertionSort_outer.simps) simp
    show ?thesis unfolding eq using rearranged_trans[OF r0 r] s by simp
  next
    case False
    then have "insertionSort_outer lessf data a b i = data"
      by (subst insertionSort_outer.simps) simp
    moreover have "i = b" using False bnd by simp
    ultimately show ?thesis using inv by simp
  qed
qed

lemma insertionSort_sorts:
  assumes "\<forall>x y. lessf x y = (key x < key y)" and "b \<le> length data"
  shows "rearranged data (insertionSort lessf data a b) a b \<and>
         range_sorted key (insertionSort lessf data a b) a b"
proof (cases "a + 1 \<le> b")
  case True
  have s: "range_sorted key data a (a + 1)" by (auto simp: range_sorted_def)
  have "a < a + 1" by simp
  from insertionSort_outer_sorts[OF assms(1) this True assms(2) s] show ?thesis
    by (simp add: insertionSort_def)
next
  case False
  have "insertionSort_outer lessf data a b (a + 1) = data"
    using False by (subst insertionSort_outer.simps) simp
  then have "insertionSort lessf data a b = data" by (simp add: insertionSort_def)
  moreover have "range_sorted key data a b" using False by (auto simp: range_sorted_def)
  ultimately show ?thesis by simp
qed

subsubsection \<open>Partition\<close>


lemma partition_up_inv:
  "\<forall>x y. lessf x y = (key x < key y) \<Longrightarrow> partition_inv key data a b i j \<Longrightarrow>
     partition_inv key data a b (partition_up lessf data a i j) j \<and>
     (partition_up lessf data a i j \<le> j \<longrightarrow>
        key (data ! a) \<le> key (data ! nat (partition_up lessf data a i j)))"
proof (induction lessf data a i j rule: partition_up.induct)
  case (1 lessf data a i j)
  note L = 1(2) and inv = 1(3)
  show ?case
  proof (cases "i \<le> j \<and> lessf (data ! nat i) (data ! a)")
    case True
    have "partition_inv key data a b (i + 1) j"
      unfolding partition_inv_def
    proof (intro conjI allI impI)
      fix k assume k: "a < k \<and> int k < i + 1"
      show "key (data ! k) < key (data ! a)"
      proof (cases "int k = i")
        case True
        then have "nat i = k" by simp
        with \<open>i \<le> j \<and> _\<close> L show ?thesis by simp
      next
        case False
        with k inv show ?thesis by (auto simp: partition_inv_def)
      qed
    qed (use inv True in \<open>auto simp: partition_inv_def\<close>)
    from 1(1)[OF True L this] show ?thesis
      using True by (subst (1 2 3) partition_up.simps) simp
  next
    case False
    then have stop: "partition_up lessf data a i j = i" by (subst partition_up.simps) auto
    show ?thesis unfolding stop using inv False L by (auto simp: not_less)
  qed
qed

lemma partition_down_inv:
  "\<forall>x y. lessf x y = (key x < key y) \<Longrightarrow> partition_inv key data a b i j \<Longrightarrow>
     partition_inv key data a b i (partition_down lessf data a i j) \<and>
     (i \<le> partition_down lessf data a i j \<longrightarrow>
        key (data ! nat (partition_down lessf data a i j)) < key (data ! a))"
proof (induction lessf data a i j rule: partition_down.induct)
  case (1 lessf data a i j)
  note L = 1(2) and inv = 1(3)
  show ?case
  proof (cases "i \<le> j \<and> \<not> lessf (data ! nat j) (data ! a)")
    case True
    have "partition_inv key data a b i (j - 1)"
      unfolding partition_inv_def
    proof (intro conjI allI impI)
      fix k assume k: "j - 1 < int k \<and> k < b"
      show "key (data ! a) \<le> key (data ! k)"
      proof (cases "int k = j")
        case True
        then have "nat j = k" by simp
        with \<open>i \<le> j \<and> _\<close> L show ?thesis by (simp add: not_less)
      next
        case False
        with k inv show ?thesis by (auto simp: partition_inv_def)
      qed
    qed (use inv True in \<open>auto simp: partition_inv_def\<close>)
    from 1(1)[OF True L this] show ?thesis
      using True by (subst (1 2 3) partition_down.simps) simp
  next
    case False
    then have stop: "partition_down lessf data a i j = j" by (subst partition_down.simps) auto
    show ?thesis unfolding stop using inv False L by auto
  qed
qed


lemma partition_inv_Swap:
  assumes inv: "partition_inv key data a b i j"
    and ij: "i \<le> j"
    and ge: "key (data ! a) \<le> key (data ! nat i)"
    and lt: "key (data ! nat j) < key (data ! a)"
  shows "partition_inv key (Swap data (nat i) (nat j)) a b (i + 1) (j - 1) \<and>
         rearranged data (Swap data (nat i) (nat j)) (a + 1) b \<and>
         Swap data (nat i) (nat j) ! a = data ! a"
proof -
  let ?d = "Swap data (nat i) (nat j)"
  have bnd: "int a < i" "j < int b" "b \<le> length data" using inv by (auto simp: partition_inv_def)
  have neq: "i \<noteq> j" using ge lt by auto
  with ij have less: "i < j" by simp
  have ni: "a < nat i" "nat i < b" "nat i < length data" and nj: "a < nat j" "nat j < b" "nat j < length data"
    using bnd less by auto
  have di: "?d ! nat i = data ! nat j" and dj: "?d ! nat j = data ! nat i"
    using ni nj by (simp_all add: Swap_nth)
  have dk: "?d ! k = data ! k" if "k \<noteq> nat i" "k \<noteq> nat j" for k
    using ni nj that by (simp add: Swap_nth)
  have da: "?d ! a = data ! a" using ni nj by (intro dk) auto
  have r: "rearranged data ?d (a + 1) b" using ni nj bnd by (intro rearranged_Swap) auto
  have "partition_inv key ?d a b (i + 1) (j - 1)"
    unfolding partition_inv_def
  proof (intro conjI allI impI)
    fix k assume k: "a < k \<and> int k < i + 1"
    show "key (?d ! k) < key (?d ! a)"
    proof (cases "k = nat i")
      case True
      then show ?thesis using di da lt by simp
    next
      case False
      with k less have "k \<noteq> nat j" "int k < i" by auto
      with False k inv dk[of k] da show ?thesis by (auto simp: partition_inv_def)
    qed
  next
    fix k assume k: "j - 1 < int k \<and> k < b"
    show "key (?d ! a) \<le> key (?d ! k)"
    proof (cases "k = nat j")
      case True
      then show ?thesis using dj da ge by simp
    next
      case False
      with k less have "k \<noteq> nat i" "j < int k" by auto
      with False k inv dk[of k] da show ?thesis by (auto simp: partition_inv_def)
    qed
  qed (use bnd less in auto)
  with r da show ?thesis by simp
qed

lemma partition_loop_inv:
  "\<forall>x y. lessf x y = (key x < key y) \<Longrightarrow> partition_inv key data a b i j \<Longrightarrow>
   partition_loop lessf data a i j = (data', j') \<Longrightarrow>
     partition_inv key data' a b (j' + 1) j' \<and> rearranged data data' (a + 1) b \<and>
     data' ! a = data ! a"
proof (induction lessf data a i j arbitrary: data' j' rule: partition_loop.induct)
  case (1 lessf data a i j)
  note L = 1(2) and inv = 1(3) and res = 1(4)
  let ?i = "partition_up lessf data a i j"
  let ?j = "partition_down lessf data a ?i j"
  from partition_up_inv[OF L inv]
  have up: "partition_inv key data a b ?i j"
    and upstop: "?i \<le> j \<Longrightarrow> key (data ! a) \<le> key (data ! nat ?i)" by auto
  from partition_down_inv[OF L up]
  have down: "partition_inv key data a b ?i ?j"
    and downstop: "?i \<le> ?j \<Longrightarrow> key (data ! nat ?j) < key (data ! a)" by auto
  have jj: "?j \<le> j" by (rule partition_down_le)
  show ?case
  proof (cases "?i > ?j")
    case True
    then have eq: "data' = data" "j' = ?j"
      using res by (subst (asm) partition_loop.simps, simp add: Let_def)+
    have "?i = ?j + 1" using True down by (auto simp: partition_inv_def)
    with down show ?thesis unfolding eq by simp
  next
    case False
    let ?d = "Swap data (nat ?i) (nat ?j)"
    have ij: "?i \<le> ?j" using False by simp
    then have "?i \<le> j" using jj by simp
    from partition_inv_Swap[OF down ij upstop[OF this] downstop[OF ij]]
    have inv': "partition_inv key ?d a b (?i + 1) (?j - 1)"
      and r: "rearranged data ?d (a + 1) b" and da: "?d ! a = data ! a" by auto
    have rec: "partition_loop lessf ?d a (?i + 1) (?j - 1) = (data', j')"
      using res False by (subst (asm) partition_loop.simps) (simp add: Let_def)
    from 1(1)[OF refl refl False L inv' rec]
    have "partition_inv key data' a b (j' + 1) j'" and r': "rearranged ?d data' (a + 1) b"
      and "data' ! a = ?d ! a" by auto
    with rearranged_trans[OF r r'] da show ?thesis by simp
  qed
qed

lemma partition_final:
  assumes inv: "partition_inv key data a b (j + 1) j"
  shows "rearranged data (Swap data (nat j) a) a b \<and> a \<le> nat j \<and> nat j < b \<and>
         (\<forall>k. a \<le> k \<and> k < nat j \<longrightarrow> key (Swap data (nat j) a ! k) < key (Swap data (nat j) a ! nat j)) \<and>
         (\<forall>k. nat j < k \<and> k < b \<longrightarrow> key (Swap data (nat j) a ! nat j) \<le> key (Swap data (nat j) a ! k))"
proof -
  let ?d = "Swap data (nat j) a"
  have bnd: "int a \<le> j" "j < int b" "b \<le> length data" using inv by (auto simp: partition_inv_def)
  then have nj: "a \<le> nat j" "nat j < b" "nat j < length data" "a < length data" by auto
  have dj: "?d ! nat j = data ! a" using nj by (simp add: Swap_nth)
  have da: "?d ! a = data ! nat j" using nj by (simp add: Swap_nth)
  have dk: "?d ! k = data ! k" if "k \<noteq> nat j" "k \<noteq> a" for k using nj that by (simp add: Swap_nth)
  have r: "rearranged data ?d a b" using nj bnd by (intro rearranged_Swap) auto
  have low: "key (?d ! k) < key (?d ! nat j)" if "a \<le> k \<and> k < nat j" for k
  proof (cases "k = a")
    case True
    with that have "a < nat j" "int (nat j) < j + 1" by auto
    then have "key (data ! nat j) < key (data ! a)" using inv unfolding partition_inv_def by blast
    with True da dj show ?thesis by simp
  next
    case False
    with that have "a < k" "int k < j + 1" by auto
    then have "key (data ! k) < key (data ! a)" using inv unfolding partition_inv_def by blast
    with dk[of k] False that dj show ?thesis by simp
  qed
  have high: "key (?d ! nat j) \<le> key (?d ! k)" if "nat j < k \<and> k < b" for k
  proof -
    from that bnd have "j < int k" "k < b" by auto
    then have "key (data ! a) \<le> key (data ! k)" using inv unfolding partition_inv_def by blast
    with dk[of k] that nj dj show ?thesis by simp
  qed
  from r nj low high show ?thesis by blast
qed

lemma partition_correct:
  fixes key :: "'a \<Rightarrow> 'k::linorder"
  assumes L: "\<forall>x y. lessf x y = (key x < key y)"
    and bnd: "a \<le> pivot" "pivot < b" "b \<le> length data"
    and res: "partition lessf data a b pivot = (data', mid, ap)"
  shows "rearranged data data' a b \<and> a \<le> mid \<and> mid < b \<and>
         (\<forall>k. a \<le> k \<and> k < mid \<longrightarrow> key (data' ! k) < key (data' ! mid)) \<and>
         (\<forall>k. mid < k \<and> k < b \<longrightarrow> key (data' ! mid) \<le> key (data' ! k))"
proof -
  let ?d = "Swap data a pivot"
  let ?i = "partition_up lessf ?d a (int a + 1) (int b - 1)"
  let ?j = "partition_down lessf ?d a ?i (int b - 1)"
  have r0: "rearranged data ?d a b" using bnd by (intro rearranged_Swap) auto
  have len0: "length ?d = length data" by simp
  have inv0: "partition_inv key ?d a b (int a + 1) (int b - 1)"
    using bnd by (auto simp: partition_inv_def)
  from partition_up_inv[OF L inv0]
  have up: "partition_inv key ?d a b ?i (int b - 1)"
    and upstop: "?i \<le> int b - 1 \<Longrightarrow> key (?d ! a) \<le> key (?d ! nat ?i)" by auto
  from partition_down_inv[OF L up]
  have down: "partition_inv key ?d a b ?i ?j"
    and downstop: "?i \<le> ?j \<Longrightarrow> key (?d ! nat ?j) < key (?d ! a)" by auto
  have jj: "?j \<le> int b - 1" by (rule partition_down_le)
  show ?thesis
  proof (cases "?i > ?j")
    case True
    then have eq: "data' = Swap ?d (nat ?j) a" "mid = nat ?j"
      using res by (auto simp: partition_def Let_def)
    have "?i = ?j + 1" using True down by (auto simp: partition_inv_def)
    with down have "partition_inv key ?d a b (?j + 1) ?j" by simp
    from partition_final[OF this] rearranged_trans[OF r0] show ?thesis unfolding eq by blast
  next
    case False
    let ?d2 = "Swap ?d (nat ?i) (nat ?j)"
    have ij: "?i \<le> ?j" using False by simp
    then have "?i \<le> int b - 1" using jj by simp
    from partition_inv_Swap[OF down ij upstop[OF this] downstop[OF ij]]
    have inv2: "partition_inv key ?d2 a b (?i + 1) (?j - 1)"
      and r2: "rearranged ?d (Swap ?d (nat ?i) (nat ?j)) (a + 1) b" by auto
    obtain d3 j3 where l: "partition_loop lessf ?d2 a (?i + 1) (?j - 1) = (d3, j3)"
      by (cases "partition_loop lessf ?d2 a (?i + 1) (?j - 1)") auto
    then have eq: "data' = Swap d3 (nat j3) a" "mid = nat j3"
      using res False by (auto simp: partition_def Let_def)
    from partition_loop_inv[OF L inv2 l]
    have inv3: "partition_inv key d3 a b (j3 + 1) j3" and r3: "rearranged ?d2 d3 (a + 1) b" by auto
    have r2': "rearranged ?d ?d2 a b" using r2 by (rule rearranged_mono) (use bnd in auto)
    have r3': "rearranged ?d2 d3 a b" using r3 by (rule rearranged_mono) (use bnd in auto)
    have "rearranged data d3 a b" using rearranged_trans[OF rearranged_trans[OF r0 r2'] r3'] .
    with partition_final[OF inv3] rearranged_trans show ?thesis unfolding eq by blast
  qed
qed

subsubsection \<open>Partition into equal and greater elements\<close>


lemma partitionEqual_up_inv:
  "\<forall>x y. lessf x y = (key x < key y) \<Longrightarrow> partitionEqual_inv key data a b i j \<Longrightarrow>
     partitionEqual_inv key data a b (partitionEqual_up lessf data a i j) j \<and>
     (partitionEqual_up lessf data a i j \<le> j \<longrightarrow>
        key (data ! a) < key (data ! nat (partitionEqual_up lessf data a i j)))"
proof (induction lessf data a i j rule: partitionEqual_up.induct)
  case (1 lessf data a i j)
  note L = 1(2) and inv = 1(3)
  show ?case
  proof (cases "i \<le> j \<and> \<not> lessf (data ! a) (data ! nat i)")
    case True
    have "partitionEqual_inv key data a b (i + 1) j"
      unfolding partitionEqual_inv_def
    proof (intro conjI allI impI)
      fix k assume k: "a < k \<and> int k < i + 1"
      show "key (data ! k) \<le> key (data ! a)"
      proof (cases "int k = i")
        case True
        then have "nat i = k" by simp
        with \<open>i \<le> j \<and> _\<close> L show ?thesis by (simp add: not_less)
      next
        case False
        with k inv show ?thesis by (auto simp: partitionEqual_inv_def)
      qed
    qed (use inv True in \<open>auto simp: partitionEqual_inv_def\<close>)
    from 1(1)[OF True L this] show ?thesis
      using True by (subst (1 2 3) partitionEqual_up.simps) simp
  next
    case False
    then have stop: "partitionEqual_up lessf data a i j = i"
      by (subst partitionEqual_up.simps) auto
    show ?thesis unfolding stop using inv False L by auto
  qed
qed

lemma partitionEqual_down_inv:
  "\<forall>x y. lessf x y = (key x < key y) \<Longrightarrow> partitionEqual_inv key data a b i j \<Longrightarrow>
     partitionEqual_inv key data a b i (partitionEqual_down lessf data a i j) \<and>
     (i \<le> partitionEqual_down lessf data a i j \<longrightarrow>
        key (data ! nat (partitionEqual_down lessf data a i j)) \<le> key (data ! a))"
proof (induction lessf data a i j rule: partitionEqual_down.induct)
  case (1 lessf data a i j)
  note L = 1(2) and inv = 1(3)
  show ?case
  proof (cases "i \<le> j \<and> lessf (data ! a) (data ! nat j)")
    case True
    have "partitionEqual_inv key data a b i (j - 1)"
      unfolding partitionEqual_inv_def
    proof (intro conjI allI impI)
      fix k assume k: "j - 1 < int k \<and> k < b"
      show "key (data ! a) < key (data ! k)"
      proof (cases "int k = j")
        case True
        then have "nat j = k" by simp
        with \<open>i \<le> j \<and> _\<close> L show ?thesis by simp
      next
        case False
        with k inv show ?thesis by (auto simp: partitionEqual_inv_def)
      qed
    qed (use inv True in \<open>auto simp: partitionEqual_inv_def\<close>)
    from 1(1)[OF True L this] show ?thesis
      using True by (subst (1 2 3) partitionEqual_down.simps) simp
  next
    case False
    then have stop: "partitionEqual_down lessf data a i j = j"
      by (subst partitionEqual_down.simps) auto
    show ?thesis unfolding stop using inv False L by (auto simp: not_less)
  qed
qed

lemma partitionEqual_inv_Swap:
  assumes inv: "partitionEqual_inv key data a b i j"
    and ij: "i \<le> j"
    and gt: "key (data ! a) < key (data ! nat i)"
    and le: "key (data ! nat j) \<le> key (data ! a)"
  shows "partitionEqual_inv key (Swap data (nat i) (nat j)) a b (i + 1) (j - 1) \<and>
         rearranged data (Swap data (nat i) (nat j)) (a + 1) b \<and>
         Swap data (nat i) (nat j) ! a = data ! a"
proof -
  let ?d = "Swap data (nat i) (nat j)"
  have bnd: "int a < i" "j < int b" "b \<le> length data"
    using inv by (auto simp: partitionEqual_inv_def)
  have neq: "i \<noteq> j" using gt le by auto
  with ij have less: "i < j" by simp
  have ni: "a < nat i" "nat i < b" "nat i < length data"
    and nj: "a < nat j" "nat j < b" "nat j < length data"
    using bnd less by auto
  have di: "?d ! nat i = data ! nat j" and dj: "?d ! nat j = data ! nat i"
    using ni nj by (simp_all add: Swap_nth)
  have dk: "?d ! k = data ! k" if "k \<noteq> nat i" "k \<noteq> nat j" for k
    using ni nj that by (simp add: Swap_nth)
  have da: "?d ! a = data ! a" using ni nj by (intro dk) auto
  have r: "rearranged data ?d (a + 1) b" using ni nj bnd by (intro rearranged_Swap) auto
  have "partitionEqual_inv key ?d a b (i + 1) (j - 1)"
    unfolding partitionEqual_inv_def
  proof (intro conjI allI impI)
    fix k assume k: "a < k \<and> int k < i + 1"
    show "key (?d ! k) \<le> key (?d ! a)"
    proof (cases "k = nat i")
      case True
      then show ?thesis using di da le by simp
    next
      case False
      with k less have "k \<noteq> nat j" "int k < i" by auto
      with False k inv dk[of k] da show ?thesis by (auto simp: partitionEqual_inv_def)
    qed
  next
    fix k assume k: "j - 1 < int k \<and> k < b"
    show "key (?d ! a) < key (?d ! k)"
    proof (cases "k = nat j")
      case True
      then show ?thesis using dj da gt by simp
    next
      case False
      with k less have "k \<noteq> nat i" "j < int k" by auto
      with False k inv dk[of k] da show ?thesis by (auto simp: partitionEqual_inv_def)
    qed
  qed (use bnd less in auto)
  with r da show ?thesis by simp
qed

lemma partitionEqual_loop_inv:
  "\<forall>x y. lessf x y = (key x < key y) \<Longrightarrow> partitionEqual_inv key data a b i j \<Longrightarrow>
   partitionEqual_loop lessf data a i j = (data', i') \<Longrightarrow>
     partitionEqual_inv key data' a b i' (i' - 1) \<and> rearranged data data' (a + 1) b \<and>
     data' ! a = data ! a"
proof (induction lessf data a i j arbitrary: data' i' rule: partitionEqual_loop.induct)
  case (1 lessf data a i j)
  note L = 1(2) and inv = 1(3) and res = 1(4)
  let ?i = "partitionEqual_up lessf data a i j"
  let ?j = "partitionEqual_down lessf data a ?i j"
  from partitionEqual_up_inv[OF L inv]
  have up: "partitionEqual_inv key data a b ?i j"
    and upstop: "?i \<le> j \<Longrightarrow> key (data ! a) < key (data ! nat ?i)" by auto
  from partitionEqual_down_inv[OF L up]
  have down: "partitionEqual_inv key data a b ?i ?j"
    and downstop: "?i \<le> ?j \<Longrightarrow> key (data ! nat ?j) \<le> key (data ! a)" by auto
  have jj: "?j \<le> j" by (rule partitionEqual_down_le)
  show ?case
  proof (cases "?i > ?j")
    case True
    then have eq: "data' = data" "i' = ?i"
      using res by (subst (asm) partitionEqual_loop.simps, simp add: Let_def)+
    have "?j = ?i - 1" using True down by (auto simp: partitionEqual_inv_def)
    with down show ?thesis unfolding eq by simp
  next
    case False
    let ?d = "Swap data (nat ?i) (nat ?j)"
    have ij: "?i \<le> ?j" using False by simp
    then have "?i \<le> j" using jj by simp
    from partitionEqual_inv_Swap[OF down ij upstop[OF this] downstop[OF ij]]
    have inv': "partitionEqual_inv key ?d a b (?i + 1) (?j - 1)"
      and r: "rearranged data ?d (a + 1) b" and da: "?d ! a = data ! a" by auto
    have rec: "partitionEqual_loop lessf ?d a (?i + 1) (?j - 1) = (data', i')"
      using res False by (subst (asm) partitionEqual_loop.simps) (simp add: Let_def)
    from 1(1)[OF refl refl False L inv' rec]
    have "partitionEqual_inv key data' a b i' (i' - 1)" and r': "rearranged ?d data' (a + 1) b"
      and "data' ! a = ?d ! a" by auto
    with rearranged_trans[OF r r'] da show ?thesis by simp
  qed
qed

lemma partitionEqual_correct:
  fixes key :: "'a \<Rightarrow> 'k::linorder"
  assumes L: "\<forall>x y. lessf x y = (key x < key y)"
    and bnd: "a \<le> pivot" "pivot < b" "b \<le> length data"
    and res: "partitionEqual lessf data a b pivot = (data', mid)"
  shows "rearranged data data' a b \<and> a < mid \<and> mid \<le> b \<and>
         (\<forall>k. a \<le> k \<and> k < mid \<longrightarrow> key (data' ! k) \<le> key (data ! pivot)) \<and>
         (\<forall>k. mid \<le> k \<and> k < b \<longrightarrow> key (data ! pivot) < key (data' ! k))"
proof -
  let ?d = "Swap data a pivot"
  have r0: "rearranged data ?d a b" using bnd by (intro rearranged_Swap) auto
  have da0: "?d ! a = data ! pivot" using bnd by (simp add: Swap_nth)
  have inv0: "partitionEqual_inv key ?d a b (int a + 1) (int b - 1)"
    using bnd by (auto simp: partitionEqual_inv_def)
  obtain d2 i2 where l: "partitionEqual_loop lessf ?d a (int a + 1) (int b - 1) = (d2, i2)"
    by (cases "partitionEqual_loop lessf ?d a (int a + 1) (int b - 1)") auto
  then have eq: "data' = d2" "mid = nat i2" using res by (auto simp: partitionEqual_def Let_def)
  from partitionEqual_loop_inv[OF L inv0 l]
  have inv: "partitionEqual_inv key d2 a b i2 (i2 - 1)" and r: "rearranged ?d d2 (a + 1) b"
    and da: "d2 ! a = ?d ! a" by auto
  have r': "rearranged ?d d2 a b" using r by (rule rearranged_mono) (use bnd in auto)
  have i2: "int a < i2" "i2 \<le> int b" using inv by (auto simp: partitionEqual_inv_def)
  have low: "key (d2 ! k) \<le> key (data ! pivot)" if "a \<le> k \<and> k < nat i2" for k
  proof (cases "k = a")
    case True
    then show ?thesis using da da0 by simp
  next
    case False
    with that have "a < k" "int k < i2" by auto
    then have "key (d2 ! k) \<le> key (d2 ! a)" using inv unfolding partitionEqual_inv_def by blast
    then show ?thesis using da da0 by simp
  qed
  have high: "key (data ! pivot) < key (d2 ! k)" if "nat i2 \<le> k \<and> k < b" for k
  proof -
    from that i2 have "i2 - 1 < int k" "k < b" by auto
    then have "key (d2 ! a) < key (d2 ! k)" using inv unfolding partitionEqual_inv_def by blast
    then show ?thesis using da da0 by simp
  qed
  from rearranged_trans[OF r0 r'] i2 low high show ?thesis unfolding eq by auto
qed

subsubsection \<open>Pattern breaking, reversal and partial insertion sort\<close>

lemma rearranged_breakPatterns_loop:
  "0 < len \<Longrightarrow> a + len \<le> length data \<Longrightarrow> a \<le> idx + i \<Longrightarrow> idx + i + n \<le> a + len \<Longrightarrow>
     rearranged data (breakPatterns_loop data a len random (nextPowerOfTwo len) idx i n) a (a + len)"
proof (induction n arbitrary: data random i)
  case 0
  then show ?case by simp
next
  case (Suc n)
  define r where "r = xorshift_Next random"
  define other where "other = (let other = unat r AND (nextPowerOfTwo len - 1) in
          if other \<ge> len then other - len else other)"
  have o: "other < len" unfolding other_def using Suc.prems(1) by (rule breakPatterns_other)
  define d where "d = Swap data (idx + i) (a + other)"
  have m: "rearranged data d a (a + len)"
    unfolding d_def using o Suc.prems by (intro rearranged_Swap) auto
  then have "length d = length data" by (rule rearranged_length)
  then have "rearranged d (breakPatterns_loop d a len r (nextPowerOfTwo len) idx (i + 1) n) a (a + len)"
    using Suc.prems by (intro Suc.IH) auto
  moreover have "breakPatterns_loop data a len random (nextPowerOfTwo len) idx i (Suc n) =
       breakPatterns_loop d a len r (nextPowerOfTwo len) idx (i + 1) n"
    by (simp add: Let_def d_def other_def r_def)
  ultimately show ?case using rearranged_trans[OF m] by simp
qed

lemma rearranged_breakPatterns:
  assumes "a \<le> b" and "b \<le> length data"
  shows "rearranged data (breakPatterns data a b) a b"
proof (cases "b - a \<ge> 8")
  case True
  have "rearranged data (breakPatterns_loop data a (b - a) (word_of_nat (b - a)) (nextPowerOfTwo (b - a))
          (a + (b - a) div 4 * 2 - 1) 0 3) a (a + (b - a))"
    using True assms by (intro rearranged_breakPatterns_loop) auto
  with True assms show ?thesis by (simp add: breakPatterns_def Let_def)
next
  case False
  then show ?thesis by (simp add: breakPatterns_def Let_def)
qed

lemma rearranged_reverseRange_loop:
  "j < length data \<Longrightarrow> a \<le> i \<Longrightarrow> j < b \<Longrightarrow> b \<le> length data \<Longrightarrow>
     rearranged data (reverseRange_loop data i j) a b"
proof (induction data i j rule: reverseRange_loop.induct)
  case (1 data i j)
  show ?case
  proof (cases "i < j")
    case True
    let ?d = "Swap data i j"
    have s: "rearranged data ?d a b" using True 1(2-5) by (intro rearranged_Swap) auto
    have "rearranged ?d (reverseRange_loop ?d (i + 1) (j - 1)) a b"
      using True 1(2-5) by (intro 1(1)) auto
    moreover have "reverseRange_loop data i j = reverseRange_loop ?d (i + 1) (j - 1)"
      using True by (subst reverseRange_loop.simps) simp
    ultimately show ?thesis using rearranged_trans[OF s] by simp
  next
    case False
    then show ?thesis by (subst reverseRange_loop.simps) simp
  qed
qed

lemma rearranged_reverseRange:
  "a < b \<Longrightarrow> b \<le> length data \<Longrightarrow> rearranged data (reverseRange data a b) a b"
  by (simp add: reverseRange_def rearranged_reverseRange_loop)

lemma range_sorted_extend:
  assumes "range_sorted key data a i" and "a < i" and "key (data ! (i - 1)) \<le> key (data ! i)"
  shows "range_sorted key data a (i + 1)"
  unfolding range_sorted_def
proof (intro allI impI)
  fix p q assume pq: "a \<le> p \<and> p < q \<and> q < i + 1"
  note S = range_sortedD[OF assms(1)]
  consider (a) "q < i" | (b) "q = i" "p = i - 1" | (c) "q = i" "p < i - 1"
    using pq by linarith
  then show "key (data ! p) \<le> key (data ! q)"
  proof cases
    case a
    then show ?thesis using S[of p q] pq by auto
  next
    case b
    then show ?thesis using assms(3) by simp
  next
    case c
    then have "key (data ! p) \<le> key (data ! (i - 1))" using S[of p "i - 1"] pq assms(2) by auto
    with assms(3) c show ?thesis by simp
  qed
qed

lemma partialInsertionSort_scan_sorted:
  "\<forall>x y. lessf x y = (key x < key y) \<Longrightarrow> a < i \<Longrightarrow> i \<le> b \<Longrightarrow> range_sorted key data a i \<Longrightarrow>
     range_sorted key data a (partialInsertionSort_scan lessf data i b) \<and>
     (partialInsertionSort_scan lessf data i b < b \<longrightarrow>
        key (data ! partialInsertionSort_scan lessf data i b)
          < key (data ! (partialInsertionSort_scan lessf data i b - 1)))"
proof (induction lessf data i b rule: partialInsertionSort_scan.induct)
  case (1 lessf data i b)
  note L = 1(2) and bnd = 1(3,4) and s = 1(5)
  show ?case
  proof (cases "i < b \<and> \<not> lessf (data ! i) (data ! (i - 1))")
    case True
    then have "key (data ! (i - 1)) \<le> key (data ! i)" using L by (simp add: not_less)
    from range_sorted_extend[OF s bnd(1) this] have "range_sorted key data a (i + 1)" .
    from 1(1)[OF True L _ _ this] bnd True
    have "range_sorted key data a (partialInsertionSort_scan lessf data (i + 1) b) \<and>
     (partialInsertionSort_scan lessf data (i + 1) b < b \<longrightarrow>
        key (data ! partialInsertionSort_scan lessf data (i + 1) b)
          < key (data ! (partialInsertionSort_scan lessf data (i + 1) b - 1)))" by simp
    moreover have "partialInsertionSort_scan lessf data i b =
               partialInsertionSort_scan lessf data (i + 1) b"
      using True by (subst partialInsertionSort_scan.simps) simp
    ultimately show ?thesis by simp
  next
    case False
    then have stop: "partialInsertionSort_scan lessf data i b = i"
      by (subst partialInsertionSort_scan.simps) auto
    show ?thesis unfolding stop using s False L bnd by auto
  qed
qed

lemma partialInsertionSort_left_sorts:
  "\<forall>x y. lessf x y = (key x < key y) \<Longrightarrow> a \<le> j \<Longrightarrow> j < b \<Longrightarrow> b \<le> length data \<Longrightarrow>
   range_sorted_but key data a b j \<Longrightarrow>
   (a > 0 \<longrightarrow> key (data ! (a - 1)) \<le> key (data ! j)) \<Longrightarrow>
     rearranged data (partialInsertionSort_left lessf data j) a b \<and>
     range_sorted key (partialInsertionSort_left lessf data j) a b"
proof (induction lessf data j rule: partialInsertionSort_left.induct)
  case (1 lessf data j)
  note L = 1(2) and bnd = 1(3,4,5) and inv = 1(6) and low = 1(7)
  show ?case
  proof (cases "j \<ge> 1 \<and> lessf (data ! j) (data ! (j - 1))")
    case True
    let ?d = "Swap data j (j - 1)"
    have lt: "key (data ! j) < key (data ! (j - 1))" using True L by simp
    have ja: "a < j"
    proof (rule ccontr)
      assume "\<not> a < j"
      with bnd have "j = a" by simp
      with True low lt show False by auto
    qed
    have inv': "range_sorted_but key ?d a b (j - 1)"
      using inv ja bnd lt by (intro range_sorted_but_step) auto
    have sw: "rearranged data ?d a b" using bnd ja by (intro rearranged_Swap) auto
    have dj1: "?d ! (j - 1) = data ! j" using bnd ja by (simp add: Swap_nth)
    have da: "a > 0 \<longrightarrow> ?d ! (a - 1) = data ! (a - 1)" using bnd ja by (auto simp: Swap_nth)
    have low': "a > 0 \<longrightarrow> key (?d ! (a - 1)) \<le> key (?d ! (j - 1))"
      using low dj1 da by simp
    have b1: "a \<le> j - 1" "j - 1 < b" "b \<le> length ?d" using ja bnd by auto
    have t: "1 \<le> j" "\<not> \<not> lessf (data ! j) (data ! (j - 1))" using True by auto
    from 1(1)[OF t L b1 inv' low']
    have r: "rearranged ?d (partialInsertionSort_left lessf ?d (j - 1)) a b"
      and s: "range_sorted key (partialInsertionSort_left lessf ?d (j - 1)) a b" by auto
    have eq: "partialInsertionSort_left lessf data j = partialInsertionSort_left lessf ?d (j - 1)"
      using True by (subst partialInsertionSort_left.simps) simp
    show ?thesis unfolding eq using rearranged_trans[OF sw r] s by simp
  next
    case False
    then have stop: "partialInsertionSort_left lessf data j = data"
      by (subst partialInsertionSort_left.simps) auto
    have "range_sorted key data a b"
      using inv bnd False L by (intro range_sorted_but_stop[of key data a b j]) auto
    with stop show ?thesis by simp
  qed
qed

lemma partialInsertionSort_right_rearranged:
  "0 < j \<Longrightarrow> a < j \<Longrightarrow> b \<le> length data \<Longrightarrow>
     rearranged data (partialInsertionSort_right lessf data j b) a b"
proof (induction lessf data j b rule: partialInsertionSort_right.induct)
  case (1 lessf data j b)
  show ?case
  proof (cases "j < b \<and> lessf (data ! j) (data ! (j - 1))")
    case True
    let ?d = "Swap data j (j - 1)"
    have sw: "rearranged data ?d a b" using True 1(2-4) by (intro rearranged_Swap) auto
    have t: "j < b" "\<not> \<not> lessf (data ! j) (data ! (j - 1))" using True by auto
    have "rearranged ?d (partialInsertionSort_right lessf ?d (j + 1) b) a b"
      using 1(2-4) by (intro 1(1)[OF t]) auto
    moreover have "partialInsertionSort_right lessf data j b =
        partialInsertionSort_right lessf ?d (j + 1) b"
      using True by (subst partialInsertionSort_right.simps) simp
    ultimately show ?thesis using rearranged_trans[OF sw] by simp
  next
    case False
    then show ?thesis by (subst partialInsertionSort_right.simps) auto
  qed
qed

lemma range_sorted_outside:
  assumes "range_sorted key d a i" and "rearranged d d' a' b'" and "i \<le> a'" and "i \<le> length d"
  shows "range_sorted key d' a i"
  unfolding range_sorted_def
proof (intro allI impI)
  fix p q assume pq: "a \<le> p \<and> p < q \<and> q < i"
  have "d' ! p = d ! p" "d' ! q = d ! q"
    using rearranged_outside[OF assms(2), of p] rearranged_outside[OF assms(2), of q] pq assms(3,4)
    by auto
  then show "key (d' ! p) \<le> key (d' ! q)" using range_sortedD[OF assms(1), of p q] pq by simp
qed

lemma partialInsertionSort_loop_sorts:
  fixes key :: "'a \<Rightarrow> 'k::linorder"
  assumes L: "\<forall>x y. lessf x y = (key x < key y)"
  shows "a < i \<Longrightarrow> i \<le> b \<Longrightarrow> b \<le> length data \<Longrightarrow> range_sorted key data a i \<Longrightarrow>
         above_left key data a b \<Longrightarrow>
         rearranged data (fst (partialInsertionSort_loop lessf data a b i j)) a b \<and>
         (snd (partialInsertionSort_loop lessf data a b i j) \<longrightarrow>
            range_sorted key (fst (partialInsertionSort_loop lessf data a b i j)) a b)"
proof (induction "maxSteps - j" arbitrary: data i j)
  case 0
  then have "partialInsertionSort_loop lessf data a b i j = (data, False)"
    by (subst partialInsertionSort_loop.simps) simp
  then show ?case by simp
next
  case (Suc n)
  note bnd = Suc.prems(1-3) and srt = Suc.prems(4) and al = Suc.prems(5)
  have j: "j < maxSteps" using Suc.hyps(2) by simp
  define i' where "i' = partialInsertionSort_scan lessf data i b"
  have ir: "i \<le> i'" "i' \<le> b"
    using partialInsertionSort_scan_range[of i b lessf data] bnd unfolding i'_def by auto
  have sc: "range_sorted key data a i'"
    and lt: "i' < b \<Longrightarrow> key (data ! i') < key (data ! (i' - 1))"
    using partialInsertionSort_scan_sorted[OF L bnd(1,2) srt] unfolding i'_def by auto
  show ?case
  proof (cases "i' = b")
    case True
    then have "partialInsertionSort_loop lessf data a b i j = (data, True)"
      using j by (subst partialInsertionSort_loop.simps) (simp add: i'_def)
    then show ?thesis using sc True by simp
  next
    case nb: False
    show ?thesis
    proof (cases "b - a < shortestShifting")
      case True
      then have "partialInsertionSort_loop lessf data a b i j = (data, False)"
        using j nb by (subst partialInsertionSort_loop.simps) (simp add: i'_def)
      then show ?thesis by simp
    next
      case False
      define d1 where "d1 = Swap data i' (i' - 1)"
      define d2 where "d2 = (if i' - a \<ge> 2 then partialInsertionSort_left lessf d1 (i' - 1) else d1)"
      define d3 where "d3 = (if b - i' \<ge> 2 then partialInsertionSort_right lessf d2 (i' + 1) b else d2)"
      have eq: "partialInsertionSort_loop lessf data a b i j =
                partialInsertionSort_loop lessf d3 a b i' (j + 1)"
        using j nb False
        by (subst partialInsertionSort_loop.simps)
           (simp add: Let_def d3_def d2_def d1_def i'_def)
      have ib: "i' < b" "a < i'" using ir nb bnd by auto
      have r1: "rearranged data d1 a (i' + 1)"
        unfolding d1_def using ib bnd by (intro rearranged_Swap) auto
      have l1: "length d1 = length data" by (simp add: d1_def)
      have but: "range_sorted_but key d1 a i' (i' - 1)"
        unfolding range_sorted_but_def
      proof (intro allI impI)
        fix p q assume pq: "a \<le> p \<and> p < q \<and> q < i' \<and> q \<noteq> i' - 1"
        then have "d1 ! p = data ! p" "d1 ! q = data ! q"
          using ib bnd by (auto simp: d1_def Swap_nth)
        then show "key (d1 ! p) \<le> key (d1 ! q)" using range_sortedD[OF sc, of p q] pq by simp
      qed
      have low: "a > 0 \<longrightarrow> key (d1 ! (a - 1)) \<le> key (d1 ! (i' - 1))"
      proof
        assume a: "a > 0"
        have "d1 ! (a - 1) = data ! (a - 1)" "d1 ! (i' - 1) = data ! i'"
          using ib bnd a by (auto simp: d1_def Swap_nth)
        then show "key (d1 ! (a - 1)) \<le> key (d1 ! (i' - 1))"
          using al a ib by (simp add: above_left_def)
      qed
      have r2: "rearranged d1 d2 a i' \<and> range_sorted key d2 a i'"
      proof (cases "i' - a \<ge> 2")
        case True
        have "a \<le> i' - 1" "i' - 1 < i'" "i' \<le> length d1" using True ib bnd l1 by auto
        from partialInsertionSort_left_sorts[OF L this but low] True show ?thesis
          by (simp add: d2_def)
      next
        case False
        then have "i' = a + 1" using ib by simp
        then show ?thesis using False by (auto simp: d2_def range_sorted_def)
      qed
      then have l2: "length d2 = length data" using l1 by (simp add: rearranged_def)
      have r3: "rearranged d2 d3 i' b"
      proof (cases "b - i' \<ge> 2")
        case True
        have "rearranged d2 (partialInsertionSort_right lessf d2 (i' + 1) b) i' b"
          using bnd l2 by (intro partialInsertionSort_right_rearranged) auto
        with True show ?thesis by (simp add: d3_def)
      next
        case False
        then show ?thesis by (simp add: d3_def)
      qed
      then have l3: "length d3 = length data" using l2 by (simp add: rearranged_def)
      have R1: "rearranged data d1 a b"
        using r1 by (rule rearranged_mono) (use ib bnd in auto)
      have R2: "rearranged d1 d2 a b"
        using conjunct1[OF r2] by (rule rearranged_mono) (use ib bnd l1 in auto)
      have R3: "rearranged d2 d3 a b"
        using r3 by (rule rearranged_mono) (use ib bnd l2 in auto)
      have R: "rearranged data d3 a b"
        using rearranged_trans[OF rearranged_trans[OF R1 R2] R3] .
      have s3: "range_sorted key d3 a i'"
        using conjunct2[OF r2] r3 by (rule range_sorted_outside) (use ib bnd l2 in auto)
      have al3: "above_left key d3 a b"
        using al R by (rule above_left_rearranged) (use bnd in auto)
      have n: "n = maxSteps - (j + 1)" using Suc.hyps(2) by simp
      have b3: "b \<le> length d3" using bnd l3 by simp
      from Suc.hyps(1)[OF n ib(2) ir(2) b3 s3 al3]
      have "rearranged d3 (fst (partialInsertionSort_loop lessf d3 a b i' (j + 1))) a b \<and>
         (snd (partialInsertionSort_loop lessf d3 a b i' (j + 1)) \<longrightarrow>
            range_sorted key (fst (partialInsertionSort_loop lessf d3 a b i' (j + 1))) a b)" .
      then show ?thesis unfolding eq using rearranged_trans[OF R] by blast
    qed
  qed
qed

lemma partialInsertionSort_sorts:
  fixes key :: "'a \<Rightarrow> 'k::linorder"
  assumes "\<forall>x y. lessf x y = (key x < key y)" and "a < b" and "b \<le> length data"
    and "above_left key data a b"
  shows "rearranged data (fst (partialInsertionSort lessf data a b)) a b \<and>
         (snd (partialInsertionSort lessf data a b) \<longrightarrow>
            range_sorted key (fst (partialInsertionSort lessf data a b)) a b)"
proof -
  have s: "range_sorted key data a (a + 1)" by (auto simp: range_sorted_def)
  have "a < a + 1" "a + 1 \<le> b" using assms(2) by auto
  from partialInsertionSort_loop_sorts[OF assms(1) this assms(3) s assms(4)]
  show ?thesis by (simp add: partialInsertionSort_def)
qed

subsubsection \<open>Heap sort\<close>

lemma is_heap_fromD:
  "is_heap_from key data first l hi \<Longrightarrow> l \<le> p \<Longrightarrow> c < hi \<Longrightarrow> c = 2 * p + 1 \<or> c = 2 * p + 2 \<Longrightarrow>
     key (data ! (first + c)) \<le> key (data ! (first + p))"
  by (simp add: is_heap_from_def)

lemma sift_invD1:
  "sift_inv key data first l hi rt \<Longrightarrow> l \<le> p \<Longrightarrow> p \<noteq> rt \<Longrightarrow> c < hi \<Longrightarrow>
   c = 2 * p + 1 \<or> c = 2 * p + 2 \<Longrightarrow>
     key (data ! (first + c)) \<le> key (data ! (first + p))"
  unfolding sift_inv_def by blast

lemma sift_invD2:
  "sift_inv key data first l hi rt \<Longrightarrow> l \<le> p \<Longrightarrow> rt = 2 * p + 1 \<or> rt = 2 * p + 2 \<Longrightarrow> c < hi \<Longrightarrow>
   c = 2 * rt + 1 \<or> c = 2 * rt + 2 \<Longrightarrow>
     key (data ! (first + c)) \<le> key (data ! (first + p))"
  unfolding sift_inv_def by blast

lemma heap_root_max:
  assumes "is_heap_from key data first 0 hi"
  shows "c < hi \<Longrightarrow> key (data ! (first + c)) \<le> key (data ! first)"
proof (induction c rule: less_induct)
  case (less c)
  show ?case
  proof (cases "c = 0")
    case True
    then show ?thesis by simp
  next
    case False
    define p where "p = (c - 1) div 2"
    have pc: "c = 2 * p + 1 \<or> c = 2 * p + 2" "p < c" using False unfolding p_def by presburger+
    have "key (data ! (first + c)) \<le> key (data ! (first + p))"
      using is_heap_fromD[OF assms _ less.prems pc(1)] by simp
    moreover have "key (data ! (first + p)) \<le> key (data ! first)"
      using less.IH[OF pc(2)] pc(2) less.prems by simp
    ultimately show ?thesis by simp
  qed
qed

lemma siftDown_loop_heap:
  fixes key :: "'a \<Rightarrow> 'k::linorder"
  assumes L: "\<forall>x y. lessf x y = (key x < key y)"
  shows "first + hi \<le> length data \<Longrightarrow> sift_inv key data first l hi rt \<Longrightarrow>
     is_heap_from key (siftDown_loop lessf data rt hi first) first l hi \<and>
     rearranged data (siftDown_loop lessf data rt hi first) first (first + hi)"
proof (induction "hi - rt" arbitrary: data rt rule: less_induct)
  case less
  note len = less.prems(1) and inv = less.prems(2)
  define c0 where "c0 = 2 * rt + 1"
  show ?case
  proof (cases "c0 \<ge> hi")
    case True
    then have stop: "siftDown_loop lessf data rt hi first = data"
      by (subst siftDown_loop.simps) (simp add: c0_def Let_def)
    have "is_heap_from key data first l hi"
      unfolding is_heap_from_def
    proof (intro allI impI)
      fix p c assume h: "l \<le> p \<and> c < hi \<and> (c = 2 * p + 1 \<or> c = 2 * p + 2)"
      then have "p \<noteq> rt" using True unfolding c0_def by auto
      with h show "key (data ! (first + c)) \<le> key (data ! (first + p))"
        using sift_invD1[OF inv, of p c] by blast
    qed
    then show ?thesis unfolding stop by simp
  next
    case lt: False
    define child where
      "child = (if c0 + 1 < hi \<and> lessf (data ! (first + c0)) (data ! (first + c0 + 1))
                then c0 + 1 else c0)"
    have ch: "child < hi" "child = 2 * rt + 1 \<or> child = 2 * rt + 2"
      using lt unfolding child_def c0_def by auto
    have big: "key (data ! (first + c)) \<le> key (data ! (first + child))"
      if "c < hi" "c = 2 * rt + 1 \<or> c = 2 * rt + 2" for c
    proof (cases "c = child")
      case True
      then show ?thesis by simp
    next
      case False
      show ?thesis
      proof (cases "c0 + 1 < hi \<and> lessf (data ! (first + c0)) (data ! (first + c0 + 1))")
        case True
        then have "child = c0 + 1" by (simp add: child_def)
        with False that have "c = c0" by (auto simp: c0_def)
        with True \<open>child = c0 + 1\<close> L show ?thesis by (simp add: add.assoc less_imp_le)
      next
        case f: False
        then have c: "child = c0" by (simp add: child_def)
        with False that have "c = c0 + 1" "c0 + 1 < hi" by (auto simp: c0_def)
        with f c L show ?thesis by (simp add: add.assoc not_less)
      qed
    qed
    show ?thesis
    proof (cases "lessf (data ! (first + rt)) (data ! (first + child))")
      case False
      then have stop: "siftDown_loop lessf data rt hi first = data"
        using lt by (subst siftDown_loop.simps) (auto simp: c0_def child_def Let_def split: if_splits)
      have top: "key (data ! (first + child)) \<le> key (data ! (first + rt))"
        using False L by (simp add: not_less)
      have "is_heap_from key data first l hi"
        unfolding is_heap_from_def
      proof (intro allI impI)
        fix p c assume h: "l \<le> p \<and> c < hi \<and> (c = 2 * p + 1 \<or> c = 2 * p + 2)"
        show "key (data ! (first + c)) \<le> key (data ! (first + p))"
        proof (cases "p = rt")
          case True
          with h have "key (data ! (first + c)) \<le> key (data ! (first + child))"
            by (intro big) auto
          with top True show ?thesis by simp
        next
          case False
          with h show ?thesis using sift_invD1[OF inv, of p c] by blast
        qed
      qed
      then show ?thesis unfolding stop by simp
    next
      case True
      define d where "d = Swap data (first + rt) (first + child)"
      have step: "siftDown_loop lessf data rt hi first = siftDown_loop lessf d child hi first"
        using lt True by (subst siftDown_loop.simps) (auto simp: c0_def child_def Let_def d_def split: if_splits)
      have rc: "rt < child" using ch by auto
      have D_rt: "d ! (first + rt) = data ! (first + child)"
        and D_child: "d ! (first + child) = data ! (first + rt)"
        using rc ch len by (auto simp: d_def Swap_nth)
      have D_other: "d ! (first + k) = data ! (first + k)" if "k \<noteq> rt" "k \<noteq> child" "k < hi" for k
        using that rc ch len by (auto simp: d_def Swap_nth)
      have ltk: "key (data ! (first + rt)) < key (data ! (first + child))" using True L by simp
      have inv': "sift_inv key d first l hi child"
        unfolding sift_inv_def
      proof (intro conjI allI impI)
        fix p c
        assume h: "l \<le> p \<and> p \<noteq> child \<and> c < hi \<and> (c = 2 * p + 1 \<or> c = 2 * p + 2)"
        consider (i) "p = rt" "c = child" | (ii) "p = rt" "c \<noteq> child"
          | (iii) "p \<noteq> rt" "c = rt" | (iv) "p \<noteq> rt" "c \<noteq> rt" by blast
        then show "key (d ! (first + c)) \<le> key (d ! (first + p))"
        proof cases
          case i
          then show ?thesis using D_rt D_child ltk by simp
        next
          case ii
          then have "c \<noteq> rt" using h by auto
          then have "d ! (first + c) = data ! (first + c)" using ii h by (intro D_other) auto
          moreover have "key (data ! (first + c)) \<le> key (data ! (first + child))"
            using h ii by (intro big) auto
          ultimately show ?thesis using ii D_rt by simp
        next
          case iii
          have "p < hi" using h by auto
          then have "d ! (first + p) = data ! (first + p)" using iii h by (intro D_other) auto
          moreover have "key (data ! (first + child)) \<le> key (data ! (first + p))"
            using sift_invD2[OF inv, of p child] h iii ch by blast
          ultimately show ?thesis using iii D_rt by simp
        next
          case iv
          have "c \<noteq> child" using iv h ch by auto
          then have "d ! (first + c) = data ! (first + c)" using iv h by (intro D_other) auto
          moreover have "p < hi" using h by auto
          then have "d ! (first + p) = data ! (first + p)" using iv h by (intro D_other) auto
          moreover have "key (data ! (first + c)) \<le> key (data ! (first + p))"
            using sift_invD1[OF inv, of p c] h iv by blast
          ultimately show ?thesis by simp
        qed
      next
        fix p c
        assume h: "l \<le> p \<and> (child = 2 * p + 1 \<or> child = 2 * p + 2) \<and> c < hi \<and>
                   (c = 2 * child + 1 \<or> c = 2 * child + 2)"
        then have p: "p = rt" using ch by auto
        have "c \<noteq> rt" "c \<noteq> child" using h rc by auto
        then have "d ! (first + c) = data ! (first + c)" using h by (intro D_other) auto
        moreover have "key (data ! (first + c)) \<le> key (data ! (first + child))"
          using sift_invD1[OF inv, of child c] h rc p by auto
        ultimately show "key (d ! (first + c)) \<le> key (d ! (first + p))" using p D_rt by simp
      qed
      have sw: "rearranged data d first (first + hi)"
        unfolding d_def using rc ch len by (intro rearranged_Swap) auto
      have ld: "first + hi \<le> length d" using len by (simp add: d_def)
      have "hi - child < hi - rt" using rc ch by auto
      from less.hyps[OF this ld inv']
      have "is_heap_from key (siftDown_loop lessf d child hi first) first l hi"
        and "rearranged d (siftDown_loop lessf d child hi first) first (first + hi)" by auto
      then show ?thesis unfolding step using rearranged_trans[OF sw] by simp
    qed
  qed
qed

lemma heapSort_build_heap:
  fixes key :: "'a \<Rightarrow> 'k::linorder"
  assumes L: "\<forall>x y. lessf x y = (key x < key y)"
  shows "first + hi \<le> length data \<Longrightarrow> is_heap_from key data first (i + 1) hi \<Longrightarrow>
     is_heap_from key (heapSort_build lessf data i hi first) first 0 hi \<and>
     rearranged data (heapSort_build lessf data i hi first) first (first + hi)"
proof (induction i arbitrary: data)
  case 0
  have inv: "sift_inv key data first 0 hi 0"
    unfolding sift_inv_def
  proof (intro conjI allI impI)
    fix p c assume "0 \<le> p \<and> p \<noteq> 0 \<and> c < hi \<and> (c = 2 * p + 1 \<or> c = 2 * p + 2)"
    then show "key (data ! (first + c)) \<le> key (data ! (first + p))"
      using is_heap_fromD[OF 0(2), of p c] by auto
  next
    fix p c :: nat
    assume "0 \<le> p \<and> (0 = 2 * p + 1 \<or> 0 = 2 * p + 2) \<and> c < hi \<and> (c = 2 * 0 + 1 \<or> c = 2 * 0 + 2)"
    then show "key (data ! (first + c)) \<le> key (data ! (first + p))" by auto
  qed
  have "heapSort_build lessf data 0 hi first = siftDown_loop lessf data 0 hi first"
    by (subst heapSort_build.simps) (simp add: siftDown_def)
  with siftDown_loop_heap[OF L 0(1) inv] show ?case by simp
next
  case (Suc i)
  define d where "d = siftDown_loop lessf data (Suc i) hi first"
  have inv: "sift_inv key data first (Suc i) hi (Suc i)"
    unfolding sift_inv_def
  proof (intro conjI allI impI)
    fix p c assume "Suc i \<le> p \<and> p \<noteq> Suc i \<and> c < hi \<and> (c = 2 * p + 1 \<or> c = 2 * p + 2)"
    then show "key (data ! (first + c)) \<le> key (data ! (first + p))"
      using is_heap_fromD[OF Suc(3), of p c] by auto
  next
    fix p c :: nat
    assume "Suc i \<le> p \<and> (Suc i = 2 * p + 1 \<or> Suc i = 2 * p + 2) \<and> c < hi \<and>
            (c = 2 * Suc i + 1 \<or> c = 2 * Suc i + 2)"
    then have False by auto
    then show "key (data ! (first + c)) \<le> key (data ! (first + p))" ..
  qed
  from siftDown_loop_heap[OF L Suc(2) inv]
  have h: "is_heap_from key d first (i + 1) hi" and r: "rearranged data d first (first + hi)"
    by (auto simp: d_def)
  have ld: "first + hi \<le> length d" using Suc(2) rearranged_length[OF r] by simp
  from Suc.IH[OF ld h]
  have "is_heap_from key (heapSort_build lessf d i hi first) first 0 hi"
    and "rearranged d (heapSort_build lessf d i hi first) first (first + hi)" by auto
  moreover have "heapSort_build lessf data (Suc i) hi first = heapSort_build lessf d i hi first"
    by (subst heapSort_build.simps) (simp add: siftDown_def d_def)
  ultimately show ?case using rearranged_trans[OF r] by simp
qed

lemma heapSort_pop_sorts:
  fixes key :: "'a \<Rightarrow> 'k::linorder"
  assumes L: "\<forall>x y. lessf x y = (key x < key y)"
  shows "i < n \<Longrightarrow> first + n \<le> length data \<Longrightarrow> is_heap_from key data first 0 (i + 1) \<Longrightarrow>
     range_sorted key data (first + i + 1) (first + n) \<Longrightarrow>
     (\<forall>p q. first \<le> p \<and> p \<le> first + i \<and> first + i < q \<and> q < first + n \<longrightarrow>
        key (data ! p) \<le> key (data ! q)) \<Longrightarrow>
     rearranged data (heapSort_pop lessf data i 0 first) first (first + n) \<and>
     range_sorted key (heapSort_pop lessf data i 0 first) first (first + n)"
proof (induction i arbitrary: data)
  case 0
  have "siftDown_loop lessf data 0 0 first = data"
    by (subst siftDown_loop.simps) simp
  then have stop: "heapSort_pop lessf data 0 0 first = data"
    by (subst heapSort_pop.simps) (simp add: siftDown_def Swap_def)
  have "range_sorted key data first (first + n)"
    unfolding range_sorted_def
  proof (intro allI impI)
    fix p q assume pq: "first \<le> p \<and> p < q \<and> q < first + n"
    show "key (data ! p) \<le> key (data ! q)"
    proof (cases "p = first")
      case True
      then show ?thesis using 0(5) pq by auto
    next
      case False
      then show ?thesis using range_sortedD[OF 0(4), of p q] pq by auto
    qed
  qed
  then show ?case unfolding stop by simp
next
  case (Suc i)
  note bnd = Suc.prems(1,2) and heap = Suc.prems(3) and suf = Suc.prems(4) and cross = Suc.prems(5)
  define d1 where "d1 = Swap data first (first + Suc i)"
  define d2 where "d2 = siftDown_loop lessf d1 0 (Suc i) first"
  have step: "heapSort_pop lessf data (Suc i) 0 first = heapSort_pop lessf d2 i 0 first"
    by (subst heapSort_pop.simps) (simp add: siftDown_def d1_def d2_def Let_def)
  have rootmax: "key (data ! (first + c)) \<le> key (data ! first)" if "c < Suc i + 1" for c
    using heap_root_max[OF heap that] .
  have D1_top: "d1 ! (first + Suc i) = data ! first"
    and D1_root: "d1 ! first = data ! (first + Suc i)"
    using bnd by (auto simp: d1_def Swap_nth)
  have D1_other: "d1 ! k = data ! k" if "k \<noteq> first" "k \<noteq> first + Suc i" "k < length data" for k
    using that bnd by (auto simp: d1_def Swap_nth)
  have l1: "length d1 = length data" by (simp add: d1_def)
  have inv: "sift_inv key d1 first 0 (Suc i) 0"
    unfolding sift_inv_def
  proof (intro conjI allI impI)
    fix p c assume h: "0 \<le> p \<and> p \<noteq> 0 \<and> c < Suc i \<and> (c = 2 * p + 1 \<or> c = 2 * p + 2)"
    have "d1 ! (first + c) = data ! (first + c)" using h bnd by (intro D1_other) auto
    moreover have "d1 ! (first + p) = data ! (first + p)" using h bnd by (intro D1_other) auto
    moreover have "key (data ! (first + c)) \<le> key (data ! (first + p))"
      using is_heap_fromD[OF heap, of p c] h by auto
    ultimately show "key (d1 ! (first + c)) \<le> key (d1 ! (first + p))" by simp
  next
    fix p c :: nat
    assume "0 \<le> p \<and> (0 = 2 * p + 1 \<or> 0 = 2 * p + 2) \<and> c < Suc i \<and> (c = 2 * 0 + 1 \<or> c = 2 * 0 + 2)"
    then show "key (d1 ! (first + c)) \<le> key (d1 ! (first + p))" by auto
  qed
  have "first + Suc i \<le> length d1" using bnd l1 by simp
  from siftDown_loop_heap[OF L this inv]
  have heap2: "is_heap_from key d2 first 0 (i + 1)"
    and r12: "rearranged d1 d2 first (first + Suc i)" by (auto simp: d2_def)
  have l2: "length d2 = length data" using rearranged_length[OF r12] l1 by simp
  have D2_out: "d2 ! q = d1 ! q" if "first + Suc i \<le> q" "q < first + n" for q
    using rearranged_outside[OF r12, of q] that bnd l1 by auto
  have D2_in: "\<exists>p'. first \<le> p' \<and> p' \<le> first + Suc i \<and> d2 ! p = data ! p'"
    if "first \<le> p" "p \<le> first + i" for p
  proof -
    have "p < first + Suc i" using that by simp
    from rearranged_inside[OF r12 that(1) this]
    obtain j where j: "first \<le> j" "j < first + Suc i" "d2 ! p = d1 ! j" by auto
    show ?thesis
    proof (cases "j = first")
      case True
      then have "d2 ! p = data ! (first + Suc i)" using j D1_root by simp
      then show ?thesis by (intro exI[of _ "first + Suc i"]) simp
    next
      case False
      then have "d1 ! j = data ! j" using j bnd by (intro D1_other) auto
      then show ?thesis using j by (intro exI[of _ j]) simp
    qed
  qed
  have suf2: "range_sorted key d2 (first + i + 1) (first + n)"
    unfolding range_sorted_def
  proof (intro allI impI)
    fix p q assume pq: "first + i + 1 \<le> p \<and> p < q \<and> q < first + n"
    have q: "d2 ! q = data ! q" using D2_out[of q] D1_other[of q] pq bnd by auto
    show "key (d2 ! p) \<le> key (d2 ! q)"
    proof (cases "p = first + Suc i")
      case True
      then have "d2 ! p = data ! first" using D2_out[of p] D1_top pq by auto
      moreover have "key (data ! first) \<le> key (data ! q)" using cross pq by auto
      ultimately show ?thesis using q by simp
    next
      case False
      then have "d2 ! p = data ! p" using D2_out[of p] D1_other[of p] pq bnd by auto
      moreover have "key (data ! p) \<le> key (data ! q)"
        using range_sortedD[OF suf, of p q] pq False by auto
      ultimately show ?thesis using q by simp
    qed
  qed
  have cross2: "\<forall>p q. first \<le> p \<and> p \<le> first + i \<and> first + i < q \<and> q < first + n \<longrightarrow>
        key (d2 ! p) \<le> key (d2 ! q)"
  proof (intro allI impI)
    fix p q assume pq: "first \<le> p \<and> p \<le> first + i \<and> first + i < q \<and> q < first + n"
    obtain p' where p': "first \<le> p'" "p' \<le> first + Suc i" "d2 ! p = data ! p'"
      using D2_in[of p] pq by auto
    show "key (d2 ! p) \<le> key (d2 ! q)"
    proof (cases "q = first + Suc i")
      case True
      then have "d2 ! q = data ! first" using D2_out[of q] D1_top pq by auto
      moreover have "key (data ! (first + (p' - first))) \<le> key (data ! first)"
        using p' by (intro rootmax) auto
      ultimately show ?thesis using p' by simp
    next
      case False
      then have "d2 ! q = data ! q" using D2_out[of q] D1_other[of q] pq bnd by auto
      moreover have "key (data ! p') \<le> key (data ! q)" using cross p' pq False by auto
      ultimately show ?thesis using p' by simp
    qed
  qed
  have R1: "rearranged data d1 first (first + n)"
    unfolding d1_def using bnd by (intro rearranged_Swap) auto
  have R2: "rearranged d1 d2 first (first + n)"
    using r12 by (rule rearranged_mono) (use bnd l1 in auto)
  have b2: "i < n" "first + n \<le> length d2" using bnd l2 by auto
  from Suc.IH[OF b2 heap2 suf2 cross2]
  have "rearranged d2 (heapSort_pop lessf d2 i 0 first) first (first + n)"
    and "range_sorted key (heapSort_pop lessf d2 i 0 first) first (first + n)" by auto
  then show ?case unfolding step using rearranged_trans[OF rearranged_trans[OF R1 R2]] by simp
qed

lemma heapSort_sorts:
  fixes key :: "'a \<Rightarrow> 'k::linorder"
  assumes L: "\<forall>x y. lessf x y = (key x < key y)" and ab: "a < b" and len: "b \<le> length data"
  shows "rearranged data (heapSort lessf data a b) a b \<and>
         range_sorted key (heapSort lessf data a b) a b"
proof -
  define hi where "hi = b - a"
  define d where "d = heapSort_build lessf data ((hi - 1) div 2) hi a"
  have hi: "0 < hi" "a + hi = b" using ab by (auto simp: hi_def)
  have eq: "heapSort lessf data a b = heapSort_pop lessf d (hi - 1) 0 a"
    using hi by (simp add: heapSort_def Let_def hi_def [symmetric] d_def)
  have half: "hi \<le> 2 * ((hi - 1) div 2) + 2" by presburger
  have h0: "is_heap_from key data a ((hi - 1) div 2 + 1) hi"
    unfolding is_heap_from_def
  proof (intro allI impI)
    fix p c assume "(hi - 1) div 2 + 1 \<le> p \<and> c < hi \<and> (c = 2 * p + 1 \<or> c = 2 * p + 2)"
    with half have False by linarith
    then show "key (data ! (a + c)) \<le> key (data ! (a + p))" ..
  qed
  have "a + hi \<le> length data" using hi len by simp
  from heapSort_build_heap[OF L this h0]
  have h: "is_heap_from key d a 0 hi" and r: "rearranged data d a (a + hi)" by (auto simp: d_def)
  have s: "range_sorted key d (a + (hi - 1) + 1) (a + hi)" by (auto simp: range_sorted_def)
  have c: "\<forall>p q. a \<le> p \<and> p \<le> a + (hi - 1) \<and> a + (hi - 1) < q \<and> q < a + hi \<longrightarrow>
        key (d ! p) \<le> key (d ! q)" by auto
  have b: "hi - 1 < hi" "a + hi \<le> length d" using hi len rearranged_length[OF r] by auto
  have h': "is_heap_from key d a 0 (hi - 1 + 1)" using h hi by simp
  from heapSort_pop_sorts[OF L b h' s c]
  have "rearranged d (heapSort_pop lessf d (hi - 1) 0 a) a (a + hi)"
    and "range_sorted key (heapSort_pop lessf d (hi - 1) 0 a) a (a + hi)" by auto
  then show ?thesis unfolding eq using rearranged_trans[OF r] hi by simp
qed

subsubsection \<open>The main loop sorts\<close>

lemma pdqsort_prepare_sorts:
  fixes key :: "'a \<Rightarrow> 'k::linorder"
  assumes L: "\<forall>x y. lessf x y = (key x < key y)"
    and long: "12 < b - a" and len: "b \<le> length data" and al: "above_left key data a b"
    and prep: "pdqsort_prepare lessf data a b limit wasBalanced wasPartitioned = (d, l, p, srt)"
  shows "rearranged data d a b \<and> a \<le> p \<and> p < b \<and> (srt \<longrightarrow> range_sorted key d a b)"
proof -
  define d1 where "d1 = (if \<not> wasBalanced then breakPatterns data a b else data)"
  define ph where "ph = choosePivot lessf d1 a b"
  define d2 where "d2 = (if snd ph = decreasingHint then reverseRange d1 a b else d1)"
  define p2 where "p2 = (if snd ph = decreasingHint then (b - 1) - (fst ph - a) else fst ph)"
  define h2 where "h2 = (if snd ph = decreasingHint then increasingHint else snd ph)"
  define ds where "ds = (if wasBalanced \<and> wasPartitioned \<and> h2 = increasingHint
             then partialInsertionSort lessf d2 a b else (d2, False))"
  have eq: "pdqsort_prepare lessf data a b limit wasBalanced wasPartitioned =
      (fst ds, (if \<not> wasBalanced then limit - 1 else limit), p2, snd ds)"
    by (simp add: pdqsort_prepare_def Let_def d1_def ph_def d2_def p2_def h2_def ds_def
             split: prod.splits)
  have ab: "a < b" "a \<le> b" using long by auto
  have r1: "rearranged data d1 a b"
    unfolding d1_def using ab len by (simp add: rearranged_breakPatterns)
  then have l1: "length d1 = length data" by (rule rearranged_length)
  have ph: "a \<le> fst ph" "fst ph < b" unfolding ph_def using choosePivot_bounds[OF long] by auto
  have r2: "rearranged d1 d2 a b"
    unfolding d2_def using ab len l1 by (simp add: rearranged_reverseRange)
  then have l2: "length d2 = length data" using l1 by (simp add: rearranged_def)
  have p2: "a \<le> p2" "p2 < b" using ph ab by (auto simp: p2_def)
  have r12: "rearranged data d2 a b" using rearranged_trans[OF r1 r2] .
  have al2: "above_left key d2 a b" using al r12 ab(2) len by (rule above_left_rearranged)
  have r3: "rearranged d2 (fst ds) a b \<and> (snd ds \<longrightarrow> range_sorted key (fst ds) a b)"
  proof (cases "wasBalanced \<and> wasPartitioned \<and> h2 = increasingHint")
    case True
    have "b \<le> length d2" using len l2 by simp
    from partialInsertionSort_sorts[OF L ab(1) this al2] True show ?thesis by (simp add: ds_def)
  next
    case False
    then have "ds = (d2, False)" unfolding ds_def by (simp only: if_False)
    then show ?thesis by simp
  qed
  from eq prep have "d = fst ds" "p = p2" "srt = snd ds" by simp_all
  with r3 p2 rearranged_trans[OF r12] show ?thesis by simp
qed

lemma above_left_cong:
  assumes "above_left key x a b" and "\<forall>i. a - 1 \<le> i \<and> i < b \<longrightarrow> y ! i = x ! i"
  shows "above_left key y a b"
  unfolding above_left_def
proof (intro impI allI)
  fix i assume a: "0 < a" and i: "a \<le> i \<and> i < b"
  then have "y ! (a - 1) = x ! (a - 1)" "y ! i = x ! i" using assms(2) by auto
  moreover have "key (x ! (a - 1)) \<le> key (x ! i)" using assms(1) a i by (simp add: above_left_def)
  ultimately show "key (y ! (a - 1)) \<le> key (y ! i)" by simp
qed

lemma range_sorted_join:
  assumes "range_sorted key x a m" and "range_sorted key x m b"
    and "\<forall>i j. a \<le> i \<and> i < m \<and> m \<le> j \<and> j < b \<longrightarrow> key (x ! i) \<le> key (x ! j)"
  shows "range_sorted key x a b"
  unfolding range_sorted_def
proof (intro allI impI)
  fix i j assume ij: "a \<le> i \<and> i < j \<and> j < b"
  consider "j < m" | "i < m" "m \<le> j" | "m \<le> i" by linarith
  then show "key (x ! i) \<le> key (x ! j)"
  proof cases
    case 1
    then show ?thesis using range_sortedD[OF assms(1), of i j] ij by simp
  next
    case 2
    then show ?thesis using assms(3) ij by simp
  next
    case 3
    then show ?thesis using range_sortedD[OF assms(2), of i j] ij by simp
  qed
qed

lemma range_sorted_around:
  fixes key :: "'a \<Rightarrow> 'k::linorder"
  assumes "range_sorted key x a m" and "range_sorted key x (m + 1) b"
    and lo: "\<forall>i. a \<le> i \<and> i < m \<longrightarrow> key (x ! i) \<le> key (x ! m)"
    and hi: "\<forall>j. m < j \<and> j < b \<longrightarrow> key (x ! m) \<le> key (x ! j)"
  shows "range_sorted key x a b"
  unfolding range_sorted_def
proof (intro allI impI)
  fix i j assume ij: "a \<le> i \<and> i < j \<and> j < b"
  consider "j < m" | "j = m" | "i < m" "m < j" | "i = m" | "m < i" by linarith
  then show "key (x ! i) \<le> key (x ! j)"
  proof cases
    case 1
    then show ?thesis using range_sortedD[OF assms(1), of i j] ij by simp
  next
    case 2
    then show ?thesis using lo ij by simp
  next
    case 3
    then have "key (x ! i) \<le> key (x ! m)" "key (x ! m) \<le> key (x ! j)" using lo hi ij by auto
    then show ?thesis by simp
  next
    case 4
    then show ?thesis using hi ij by simp
  next
    case 5
    then show ?thesis using range_sortedD[OF assms(2), of i j] ij by simp
  qed
qed

lemma range_sorted_apart:
  assumes "range_sorted key d a i" and "rearranged d d' a' b'" and "i \<le> a' \<or> b' \<le> a"
    and "i \<le> length d"
  shows "range_sorted key d' a i"
  unfolding range_sorted_def
proof (intro allI impI)
  fix p q assume pq: "a \<le> p \<and> p < q \<and> q < i"
  have "d' ! p = d ! p" "d' ! q = d ! q"
    using rearranged_outside[OF assms(2), of p] rearranged_outside[OF assms(2), of q] pq assms(3,4)
    by auto
  then show "key (d' ! p) \<le> key (d' ! q)" using range_sortedD[OF assms(1), of p q] pq by simp
qed

lemma pdqsort_join:
  fixes key :: "'a \<Rightarrow> 'k::linorder"
  assumes r1: "rearranged d x a1 b1" and r2: "rearranged x y a2 b2"
    and ranges: "(a1 = a \<and> b1 = mid \<and> a2 = mid + 1 \<and> b2 = b) \<or>
                 (a1 = mid + 1 \<and> b1 = b \<and> a2 = a \<and> b2 = mid)"
    and s1: "range_sorted key x a1 b1" and s2: "range_sorted key y a2 b2"
    and bounds: "a \<le> mid" "mid < b" "b \<le> length d"
    and lo: "\<forall>k. a \<le> k \<and> k < mid \<longrightarrow> key (d ! k) \<le> key (d ! mid)"
    and hi: "\<forall>k. mid < k \<and> k < b \<longrightarrow> key (d ! mid) \<le> key (d ! k)"
  shows "rearranged d y a b \<and> range_sorted key y a b"
proof -
  have lx: "length x = length d" using r1 by (rule rearranged_length)
  have R1: "rearranged d x a b" using r1 by (rule rearranged_mono) (use ranges bounds in auto)
  have R2: "rearranged x y a b" using r2 by (rule rearranged_mono) (use ranges bounds lx in auto)
  have R: "rearranged d y a b" using rearranged_trans[OF R1 R2] .
  have s1': "range_sorted key y a1 b1"
    using s1 r2 by (rule range_sorted_apart) (use ranges bounds lx in auto)
  have "range_sorted key y a mid \<and> range_sorted key y (mid + 1) b"
  proof (cases "a1 = a")
    case True
    then have "a1 = a" "b1 = mid" "a2 = mid + 1" "b2 = b" using ranges bounds by auto
    with s1' s2 show ?thesis by simp
  next
    case False
    then have "a1 = mid + 1" "b1 = b" "a2 = a" "b2 = mid" using ranges bounds by auto
    with s1' s2 show ?thesis by simp
  qed
  then have sl: "range_sorted key y a mid" and sr: "range_sorted key y (mid + 1) b" by auto
  have ym: "y ! mid = d ! mid"
    using rearranged_outside[OF r1, of mid] rearranged_outside[OF r2, of mid] ranges bounds lx
    by auto
  have inl: "\<exists>j. a \<le> j \<and> j < mid \<and> y ! i = d ! j" if "a \<le> i" "i < mid" for i
  proof (cases "a1 = a")
    case True
    then have rg: "a1 = a" "b1 = mid" "a2 = mid + 1" "b2 = b" using ranges bounds by auto
    have r1': "rearranged d x a mid" using r1 rg by simp
    have "y ! i = x ! i" using rearranged_outside[OF r2, of i] that rg bounds lx by auto
    then show ?thesis using rearranged_inside[OF r1' that] by auto
  next
    case False
    then have rg: "a1 = mid + 1" "b1 = b" "a2 = a" "b2 = mid" using ranges bounds by auto
    have r2': "rearranged x y a mid" using r2 rg by simp
    from rearranged_inside[OF r2' that]
    obtain j where j: "a \<le> j" "j < mid" "y ! i = x ! j" by auto
    then have "x ! j = d ! j" using rearranged_outside[OF r1, of j] rg bounds by auto
    with j show ?thesis by auto
  qed
  have inr: "\<exists>j. mid < j \<and> j < b \<and> y ! i = d ! j" if "mid < i" "i < b" for i
  proof (cases "a1 = a")
    case True
    then have rg: "a1 = a" "b1 = mid" "a2 = mid + 1" "b2 = b" using ranges bounds by auto
    have r2': "rearranged x y (mid + 1) b" using r2 rg by simp
    have "mid + 1 \<le> i" using that by simp
    from rearranged_inside[OF r2' this that(2)]
    obtain j where j: "mid + 1 \<le> j" "j < b" "y ! i = x ! j" by auto
    then have "x ! j = d ! j" using rearranged_outside[OF r1, of j] rg bounds by auto
    with j show ?thesis by (intro exI[of _ j]) simp
  next
    case False
    then have rg: "a1 = mid + 1" "b1 = b" "a2 = a" "b2 = mid" using ranges bounds by auto
    have r1': "rearranged d x (mid + 1) b" using r1 rg by simp
    have "mid + 1 \<le> i" using that by simp
    from rearranged_inside[OF r1' this that(2)]
    obtain j where "mid + 1 \<le> j" "j < b" "x ! i = d ! j" by auto
    moreover have "y ! i = x ! i"
      using rearranged_outside[OF r2, of i] that rg bounds lx by auto
    ultimately show ?thesis by (intro exI[of _ j]) simp
  qed
  have lo': "\<forall>i. a \<le> i \<and> i < mid \<longrightarrow> key (y ! i) \<le> key (y ! mid)"
  proof (intro allI impI)
    fix i assume "a \<le> i \<and> i < mid"
    then obtain j where "a \<le> j" "j < mid" "y ! i = d ! j" using inl[of i] by auto
    then show "key (y ! i) \<le> key (y ! mid)" using lo ym by simp
  qed
  have hi': "\<forall>i. mid < i \<and> i < b \<longrightarrow> key (y ! mid) \<le> key (y ! i)"
  proof (intro allI impI)
    fix i assume "mid < i \<and> i < b"
    then obtain j where "mid < j" "j < b" "y ! i = d ! j" using inr[of i] by auto
    then show "key (y ! mid) \<le> key (y ! i)" using hi ym by simp
  qed
  from R range_sorted_around[OF sl sr lo' hi'] show ?thesis by simp
qed

lemma pdqsort_sorts:
  fixes key :: "'a \<Rightarrow> 'k::linorder"
  assumes L: "\<forall>x y. lessf x y = (key x < key y)"
  shows "b \<le> length data \<Longrightarrow> above_left key data a b \<Longrightarrow>
     rearranged data (pdqsort lessf data a b limit wasBalanced wasPartitioned) a b \<and>
     range_sorted key (pdqsort lessf data a b limit wasBalanced wasPartitioned) a b"
proof (induction "b - a" arbitrary: data a b limit wasBalanced wasPartitioned rule: less_induct)
  case less
  note len = less.prems(1) and al = less.prems(2)
  show ?case
  proof (cases "b - a \<le> maxInsertion")
    case True
    then show ?thesis using insertionSort_sorts[OF L len] by (simp add: pdqsort_short)
  next
    case long: False
    then have ab: "12 < b - a" "a < b" by (auto simp: maxInsertion_def)
    show ?thesis
    proof (cases "limit = 0")
      case True
      then show ?thesis using long heapSort_sorts[OF L ab(2) len] by (simp add: pdqsort_heap)
    next
      case limit: False
      obtain d l p srt where prep:
        "pdqsort_prepare lessf data a b limit wasBalanced wasPartitioned = (d, l, p, srt)"
        by (metis prod_cases4)
      from pdqsort_prepare_sorts[OF L ab(1) len al prep]
      have rd: "rearranged data d a b" and p: "a \<le> p" "p < b"
        and sd: "srt \<Longrightarrow> range_sorted key d a b" by auto
      have ld: "length d = length data" using rd by (rule rearranged_length)
      have bd: "b \<le> length d" using len ld by simp
      have ald: "above_left key d a b"
        using al rd by (rule above_left_rearranged) (use ab len in auto)
      show ?thesis
      proof (cases srt)
        case True
        with prep have "pdqsort_prepare lessf data a b limit wasBalanced wasPartitioned =
            (d, l, p, True)" by simp
        from pdqsort_sorted[OF long limit this] rd sd True show ?thesis by simp
      next
        case unsorted: False
        with prep have prep: "pdqsort_prepare lessf data a b limit wasBalanced wasPartitioned =
            (d, l, p, False)" by simp
        show ?thesis
        proof (cases "a > 0 \<and> \<not> lessf (d ! (a - 1)) (d ! p)")
          case True
          obtain d' mid where pe: "partitionEqual lessf d a b p = (d', mid)" by force
          from partitionEqual_correct[OF L p bd pe]
          have rd': "rearranged d d' a b" and mid: "a < mid" "mid \<le> b"
            and le: "\<And>k. a \<le> k \<Longrightarrow> k < mid \<Longrightarrow> key (d' ! k) \<le> key (d ! p)"
            and gt: "\<And>k. mid \<le> k \<Longrightarrow> k < b \<Longrightarrow> key (d ! p) < key (d' ! k)" by auto
          have ld': "length d' = length data" using rearranged_length[OF rd'] ld by simp
          have low: "key (d ! p) \<le> key (d ! i)" if "a \<le> i" "i < b" for i
          proof -
            have "key (d ! p) \<le> key (d ! (a - 1))" using True L by (simp add: not_less)
            moreover have "key (d ! (a - 1)) \<le> key (d ! i)"
              using ald True that by (simp add: above_left_def)
            ultimately show ?thesis by simp
          qed
          have low': "key (d ! p) \<le> key (d' ! i)" if "a \<le> i" "i < b" for i
            using rearranged_all[OF rd', of "\<lambda>x. key (d ! p) \<le> key x" i] low that by simp
          have eqk: "key (d' ! k) = key (d ! p)" if "a \<le> k" "k < mid" for k
            using le[OF that] low'[of k] that mid by simp
          have al': "above_left key d' mid b"
            unfolding above_left_def
          proof (intro impI allI)
            fix i assume "0 < mid" and i: "mid \<le> i \<and> i < b"
            have "key (d' ! (mid - 1)) = key (d ! p)" using mid by (intro eqk) auto
            then show "key (d' ! (mid - 1)) \<le> key (d' ! i)" using gt[of i] i by simp
          qed
          define res where "res = pdqsort lessf d' mid b l wasBalanced wasPartitioned"
          have "b - mid < b - a" using mid ab by auto
          moreover have "b \<le> length d'" using len ld' by simp
          ultimately have "rearranged d' res mid b \<and> range_sorted key res mid b"
            unfolding res_def using al' by (intro less.hyps)
          then have rr: "rearranged d' res mid b" and sr: "range_sorted key res mid b" by auto
          have RR: "rearranged d' res a b"
            using rr by (rule rearranged_mono) (use mid len ld' in auto)
          have sl: "range_sorted key res a mid"
            unfolding range_sorted_def
          proof (intro allI impI)
            fix i j assume ij: "a \<le> i \<and> i < j \<and> j < mid"
            have "res ! i = d' ! i" "res ! j = d' ! j"
              using rearranged_outside[OF rr, of i] rearranged_outside[OF rr, of j] ij mid len ld'
              by auto
            moreover have "key (d' ! i) = key (d ! p)" "key (d' ! j) = key (d ! p)"
              using ij by (auto intro!: eqk)
            ultimately show "key (res ! i) \<le> key (res ! j)" by simp
          qed
          have cr: "\<forall>i j. a \<le> i \<and> i < mid \<and> mid \<le> j \<and> j < b \<longrightarrow> key (res ! i) \<le> key (res ! j)"
          proof (intro allI impI)
            fix i j assume ij: "a \<le> i \<and> i < mid \<and> mid \<le> j \<and> j < b"
            have "res ! i = d' ! i"
              using rearranged_outside[OF rr, of i] ij mid len ld' by auto
            moreover have "key (d' ! i) = key (d ! p)" using ij by (auto intro!: eqk)
            moreover have "key (d ! p) \<le> key (res ! j)"
              using rearranged_all[OF rr, of "\<lambda>x. key (d ! p) \<le> key x" j] gt ij
              by (simp add: less_imp_le)
            ultimately show "key (res ! i) \<le> key (res ! j)" by simp
          qed
          have "range_sorted key res a b" using sl sr cr by (rule range_sorted_join)
          moreover have "rearranged data res a b"
            using rearranged_trans[OF rearranged_trans[OF rd rd'] RR] .
          ultimately show ?thesis
            using pdqsort_equal[OF long limit prep True pe] by (simp add: res_def)
        next
          case False
          obtain d' mid ap where pt: "partition lessf d a b p = (d', mid, ap)"
            by (metis prod_cases3)
          from partition_correct[OF L p bd pt]
          have rd': "rearranged d d' a b" and mid: "a \<le> mid" "mid < b"
            and lo: "\<forall>k. a \<le> k \<and> k < mid \<longrightarrow> key (d' ! k) < key (d' ! mid)"
            and hi: "\<forall>k. mid < k \<and> k < b \<longrightarrow> key (d' ! mid) \<le> key (d' ! k)" by auto
          have lo': "\<forall>k. a \<le> k \<and> k < mid \<longrightarrow> key (d' ! k) \<le> key (d' ! mid)"
            using lo by (auto simp: less_imp_le)
          have ld': "length d' = length data" using rearranged_length[OF rd'] ld by simp
          have bd': "b \<le> length d'" using len ld' by simp
          have ald': "above_left key d' a b"
            using ald rd' by (rule above_left_rearranged) (use ab bd in auto)
          have al_left: "above_left key d' a mid"
            using ald' mid by (auto simp: above_left_def)
          have al_right: "above_left key d' (mid + 1) b"
            using hi by (auto simp: above_left_def)
          have R: "rearranged data d' a b" using rearranged_trans[OF rd rd'] .
          show ?thesis
          proof (cases "mid - a < b - mid")
            case True
            define x where "x = pdqsort lessf d' a mid l True True"
            define y where "y = pdqsort lessf x (mid + 1) b l ((b - a) div 8 \<le> mid - a) ap"
            have "mid - a < b - a" using mid by auto
            moreover have "mid \<le> length d'" using mid bd' by simp
            ultimately have "rearranged d' x a mid \<and> range_sorted key x a mid"
              unfolding x_def using al_left by (intro less.hyps)
            then have r1: "rearranged d' x a mid" and s1: "range_sorted key x a mid" by auto
            have lx: "length x = length data" using rearranged_length[OF r1] ld' by simp
            have "\<forall>i. mid + 1 - 1 \<le> i \<and> i < b \<longrightarrow> x ! i = d' ! i"
              using rearranged_outside[OF r1] bd' by auto
            with al_right have alx: "above_left key x (mid + 1) b" by (rule above_left_cong)
            have "b - (mid + 1) < b - a" using mid by auto
            moreover have "b \<le> length x" using len lx by simp
            ultimately have "rearranged x y (mid + 1) b \<and> range_sorted key y (mid + 1) b"
              unfolding y_def using alx by (intro less.hyps)
            then have r2: "rearranged x y (mid + 1) b" and s2: "range_sorted key y (mid + 1) b"
              by auto
            have "rearranged d' y a b \<and> range_sorted key y a b"
              using r1 r2 _ s1 s2 mid bd' lo' hi by (rule pdqsort_join) simp
            then show ?thesis
              using pdqsort_left[OF long limit prep False pt True] rearranged_trans[OF R]
              by (simp add: x_def y_def)
          next
            case right: False
            define x where "x = pdqsort lessf d' (mid + 1) b l True True"
            define y where "y = pdqsort lessf x a mid l ((b - a) div 8 \<le> b - mid) ap"
            have "b - (mid + 1) < b - a" using mid by auto
            then have "rearranged d' x (mid + 1) b \<and> range_sorted key x (mid + 1) b"
              unfolding x_def using bd' al_right by (intro less.hyps)
            then have r1: "rearranged d' x (mid + 1) b" and s1: "range_sorted key x (mid + 1) b"
              by auto
            have lx: "length x = length data" using rearranged_length[OF r1] ld' by simp
            have "\<forall>i. a - 1 \<le> i \<and> i < mid \<longrightarrow> x ! i = d' ! i"
              using rearranged_outside[OF r1] bd' mid by auto
            with al_left have alx: "above_left key x a mid" by (rule above_left_cong)
            have "mid - a < b - a" using mid by auto
            moreover have "mid \<le> length x" using len lx mid by simp
            ultimately have "rearranged x y a mid \<and> range_sorted key y a mid"
              unfolding y_def using alx by (intro less.hyps)
            then have r2: "rearranged x y a mid" and s2: "range_sorted key y a mid" by auto
            have "rearranged d' y a b \<and> range_sorted key y a b"
              using r1 r2 _ s1 s2 mid bd' lo' hi by (rule pdqsort_join) simp
            then show ?thesis
              using pdqsort_right[OF long limit prep False pt right] rearranged_trans[OF R]
              by (simp add: x_def y_def)
          qed
        qed
      qed
    qed
  qed
qed

lemma sort_Sort_sorted:
  fixes key :: "'a \<Rightarrow> 'k::linorder"
  assumes L: "\<forall>x y. lessf x y = (key x < key y)"
  shows "sorted (map key (sort_Sort lessf data))"
proof -
  have s: "range_sorted key (sort_Sort lessf data) 0 (length data)"
  proof (cases "length data \<le> 1")
    case True
    then show ?thesis by (auto simp: sort_Sort_def range_sorted_def)
  next
    case False
    have "above_left key data 0 (length data)" by (simp add: above_left_def)
    from pdqsort_sorts[OF L _ this, of "bits_Len (length data)" True True] False
    show ?thesis by (simp add: sort_Sort_def Let_def)
  qed
  show ?thesis
    unfolding sorted_iff_nth_mono_less
  proof (intro allI impI)
    fix i j assume "i < j" "j < length (map key (sort_Sort lessf data))"
    then show "map key (sort_Sort lessf data) ! i \<le> map key (sort_Sort lessf data) ! j"
      using range_sortedD[OF s, of i j] by simp
  qed
qed

subsection \<open>View\<close>

lemma scanComments_eq:
  "scanComments inc rows =
     inc\<lparr>ReviewerComments := ReviewerComments inc @ map scanComment rows\<rparr>"
  by (induction rows arbitrary: inc) (simp_all add: scanComment_def)

lemma SaveReview_reviewed:
  assumes "ident \<in> set (map i_id (incidents db))" and "uuid \<notin> set (map c_id (comments db))"
  shows "SaveReview db uuid ident res comment =
        (db\<lparr>incidents :=
               map (\<lambda>r. if i_id r = ident then r\<lparr>i_resolution := Resolution_String res\<rparr> else r)
                 (incidents db),
             comments :=
               comments db @
                 [\<lparr>c_id = uuid, c_incident_id = ident,
                   c_timestamp = Comment_Timestamp comment,
                   c_author = Comment_AuthorId comment,
                   c_comment = Comment_Message comment,
                   c_resolution = Resolution_String res\<rparr>]\<rparr>, None)"
  using assms
  by (auto simp: SaveReview_def hasIncident_iff saveCommentStmt_def updateResolutionStmt_def
                 Let_def)

lemma ViewIncident_Inr:
  assumes "viewIncidentStmt db ident = row # rows" and "scanIncident (Inr row) = Inr inc"
  shows "ViewIncident db ident =
           Inr (inc\<lparr>ReviewerComments :=
                  sort_Sort ByTimestamp_Less (map scanComment (viewCommentsStmt db ident))\<rparr>)"
proof -
  from assms(2) have "ReviewerComments inc = []" by (auto simp: scanIncident_row)
  with assms show ?thesis by (simp add: ViewIncident_def Let_def scanComments_eq)
qed

text \<open>
  C5 (as amended). After a review of a stored incident whose description is not NULL,
  with a fresh comment identifier, \<^verbatim>\<open>ViewIncident\<close> of the same identifier succeeds;
  the incident it returns has the resolution of the review, and its comments hold one
  with the timestamp, author and message of the reviewer's comment. The resolution of
  every comment that \<^verbatim>\<open>ViewIncident\<close> returns is the zero value: the snapshot is in
  the stored comment row and is not read back.
\<close>

theorem ViewIncident_after_SaveReview:
  assumes "ident \<in> set (map i_id (incidents db))"
    and "uuid \<notin> set (map c_id (comments db))"
    and "\<forall>row\<in>set (incidents db). i_id row = ident \<longrightarrow> i_description row \<noteq> None"
  shows "\<exists>inc. ViewIncident (fst (SaveReview db uuid ident res comment)) ident = Inr inc \<and>
           Resolution inc = res \<and>
           \<lparr>Comment_Timestamp = Comment_Timestamp comment,
            Comment_AuthorId = Comment_AuthorId comment,
            Comment_Message = Comment_Message comment,
            Comment_Resolution = Resolution_RESOLUTION_UNSPECIFIED\<rparr> \<in> set (ReviewerComments inc) \<and>
           (\<forall>c\<in>set (ReviewerComments inc).
              Comment_Resolution c = Resolution_RESOLUTION_UNSPECIFIED)"
proof -
  define upd where "upd = (\<lambda>r::incident_row. if i_id r = ident then r\<lparr>i_resolution := Resolution_String res\<rparr> else r)"
  define new where "new = \<lparr>c_id = uuid, c_incident_id = ident,
                   c_timestamp = Comment_Timestamp comment,
                   c_author = Comment_AuthorId comment,
                   c_comment = Comment_Message comment,
                   c_resolution = Resolution_String res\<rparr>"
  define db' where "db' = db\<lparr>incidents := map upd (incidents db), comments := comments db @ [new]\<rparr>"
  have db': "fst (SaveReview db uuid ident res comment) = db'"
    using SaveReview_reviewed[OF assms(1,2), of res comment] by (simp add: db'_def upd_def new_def)
  have sel: "viewIncidentStmt db' ident = map upd (viewIncidentStmt db ident)"
    by (simp add: viewIncidentStmt_def db'_def filter_map comp_def upd_def)
  from assms(1) obtain row rows where rows: "viewIncidentStmt db ident = row # rows"
    by (cases "viewIncidentStmt db ident") (auto simp: viewIncidentStmt_def filter_empty_conv)
  then have "row \<in> set (viewIncidentStmt db ident)" by simp
  then have row: "row \<in> set (incidents db)" "i_id row = ident" by (auto simp: viewIncidentStmt_def)
  with assms(3) obtain d where d: "i_description row = Some d" by auto
  obtain inc where scan: "scanIncident (Inr (upd row)) = Inr inc"
    and res: "Resolution inc = res"
    using d row(2) by (auto simp: scanIncident_row upd_def)
  from sel rows have "viewIncidentStmt db' ident = upd row # map upd rows" by simp
  from ViewIncident_Inr[OF this scan]
  have view: "ViewIncident db' ident =
      Inr (inc\<lparr>ReviewerComments :=
             sort_Sort ByTimestamp_Less (map scanComment (viewCommentsStmt db' ident))\<rparr>)" .
  have "new \<in> set (viewCommentsStmt db' ident)"
    by (simp add: viewCommentsStmt_def db'_def new_def)
  then have "scanComment new \<in> set (map scanComment (viewCommentsStmt db' ident))" by simp
  moreover have "scanComment new = \<lparr>Comment_Timestamp = Comment_Timestamp comment,
            Comment_AuthorId = Comment_AuthorId comment,
            Comment_Message = Comment_Message comment,
            Comment_Resolution = Resolution_RESOLUTION_UNSPECIFIED\<rparr>"
    by (simp add: scanComment_def new_def)
  moreover have "\<forall>c\<in>set (map scanComment (viewCommentsStmt db' ident)).
      Comment_Resolution c = Resolution_RESOLUTION_UNSPECIFIED"
    by (auto simp: scanComment_def)
  ultimately show ?thesis using view res db' by simp
qed

theorem ViewIncident_after_SaveReview_witness:
  "ViewIncident (fst (SaveReview db_a ''u1'' ''a'' Resolution_RESOLUTION_ALERTED comment_1)) ''a''
     = Inr view_reviewed \<and>
   Resolution view_reviewed = Resolution_RESOLUTION_ALERTED \<and>
   \<lparr>Comment_Timestamp = Comment_Timestamp comment_1,
    Comment_AuthorId = Comment_AuthorId comment_1,
    Comment_Message = Comment_Message comment_1,
    Comment_Resolution = Resolution_RESOLUTION_UNSPECIFIED\<rparr> = comment_1"
proof -
  have ex: "''a'' \<in> set (map i_id (incidents db_a))" by (simp add: db_a_def row_a_def)
  have fresh: "''u1'' \<notin> set (map c_id (comments db_a))" by (simp add: db_a_def)
  have desc: "\<forall>row\<in>set (incidents db_a). i_id row = ''a'' \<longrightarrow> i_description row \<noteq> None"
    by (simp add: db_a_def row_a_def)
  have run: "ViewIncident (fst (SaveReview db_a ''u1'' ''a'' Resolution_RESOLUTION_ALERTED comment_1)) ''a''
     = Inr view_reviewed"
    by code_simp
  show ?thesis
    using run ViewIncident_after_SaveReview [OF ex fresh desc, of Resolution_RESOLUTION_ALERTED comment_1]
    by (simp add: view_reviewed_def comment_1_def)
qed

text \<open>
  C5 (as stated) fails: after the review of the incident \<^verbatim>\<open>a\<close> with the alerted
  resolution, the only comment that \<^verbatim>\<open>ViewIncident\<close> returns has the unspecified
  resolution.
\<close>

theorem ViewIncident_comment_resolution_counterexample:
  "ViewIncident (fst (SaveReview db_a ''u1'' ''a'' Resolution_RESOLUTION_ALERTED comment_1)) ''a''
     = Inr view_reviewed \<and>
   ReviewerComments view_reviewed = [comment_1] \<and>
   Comment_Resolution comment_1 \<noteq> Resolution_RESOLUTION_ALERTED"
  by code_simp

subsection \<open>Order of the comments\<close>

text \<open>
  C4 (as amended). \<^verbatim>\<open>ViewIncident\<close> of a stored identifier whose row has a
  description succeeds, and the comments of the incident it returns are the comments
  fetched for the identifier, each as often as it was fetched, in an order in which the
  timestamps do not decrease. Nothing more holds of the order: \<^verbatim>\<open>sort.Sort\<close> is not
  stable, and comments with equal timestamps need not keep the order in which they were
  fetched.
\<close>

theorem ViewIncident_comments_sorted:
  assumes "ident \<in> set (map i_id (incidents db))"
    and "\<forall>row\<in>set (incidents db). i_id row = ident \<longrightarrow> i_description row \<noteq> None"
  shows "\<exists>inc. ViewIncident db ident = Inr inc \<and>
           sorted (map Comment_Timestamp (ReviewerComments inc)) \<and>
           mset (ReviewerComments inc) = mset (map scanComment (viewCommentsStmt db ident))"
proof -
  from assms(1) obtain row rows where rows: "viewIncidentStmt db ident = row # rows"
    by (cases "viewIncidentStmt db ident") (auto simp: viewIncidentStmt_def filter_empty_conv)
  then have "row \<in> set (viewIncidentStmt db ident)" by simp
  then have "row \<in> set (incidents db)" "i_id row = ident" by (auto simp: viewIncidentStmt_def)
  with assms(2) obtain d where "i_description row = Some d" by auto
  then obtain inc where scan: "scanIncident (Inr row) = Inr inc"
    by (auto simp: scanIncident_row)
  have L: "\<forall>x y. ByTimestamp_Less x y = (Comment_Timestamp x < Comment_Timestamp y)"
    by (simp add: ByTimestamp_Less_def)
  have "sorted (map Comment_Timestamp
          (sort_Sort ByTimestamp_Less (map scanComment (viewCommentsStmt db ident))))"
    using L by (rule sort_Sort_sorted)
  with ViewIncident_Inr[OF rows scan] show ?thesis by (simp add: mset_sort_Sort)
qed

theorem ViewIncident_comments_sorted_witness:
  "map c_timestamp (viewCommentsStmt db_three ''a'') = [300, 100, 200] \<and>
   ViewIncident db_three ''a'' = Inr view_three \<and>
   map Comment_Timestamp (ReviewerComments view_three) = [100, 200, 300] \<and>
   sorted (map Comment_Timestamp (ReviewerComments view_three)) \<and>
   mset (ReviewerComments view_three) = mset (map scanComment (viewCommentsStmt db_three ''a''))"
proof -
  have stored: "''a'' \<in> set (map i_id (incidents db_three))"
    by (simp add: db_three_def row_a_def)
  have desc: "\<forall>row\<in>set (incidents db_three). i_id row = ''a'' \<longrightarrow> i_description row \<noteq> None"
    by (simp add: db_three_def row_a_def)
  have fetched: "map c_timestamp (viewCommentsStmt db_three ''a'') = [300, 100, 200]"
    by (simp add: viewCommentsStmt_def db_three_def tie_row_def)
  have run: "ViewIncident db_three ''a'' = Inr view_three"
    by code_simp
  have ts: "map Comment_Timestamp (ReviewerComments view_three) = [100, 200, 300]"
    by (simp add: view_three_def tie_comment_def)
  show ?thesis
    using fetched run ts ViewIncident_comments_sorted [OF stored desc]
    by simp
qed

text \<open>
  C4 (as stated) fails: \<^verbatim>\<open>sort.Sort\<close> is not stable. Of the thirteen comments of
  the store \<open>db_ties\<close>, twelve have the same timestamp and are fetched in the order
  \<^verbatim>\<open>m0\<close>, \<^verbatim>\<open>m2\<close>, \<^verbatim>\<open>m3\<close>, ...; \<^verbatim>\<open>ViewIncident\<close> returns
  \<^verbatim>\<open>m6\<close> before \<^verbatim>\<open>m2\<close> and \<^verbatim>\<open>m0\<close> after \<^verbatim>\<open>m5\<close>. The range is
  longer than twelve elements, so it is partitioned: the pivot \<^verbatim>\<open>m6\<close> is swapped to
  the front, \<^verbatim>\<open>m0\<close> takes its place, and the insertion sort of the rest moves
  neither.
\<close>

theorem ViewIncident_stable_counterexample:
  "viewCommentsStmt db_ties ''a'' =
     [tie_row ''m0'' 1, tie_row ''m1'' 0, tie_row ''m2'' 1, tie_row ''m3'' 1,
      tie_row ''m4'' 1, tie_row ''m5'' 1, tie_row ''m6'' 1, tie_row ''m7'' 1,
      tie_row ''m8'' 1, tie_row ''m9'' 1, tie_row ''m10'' 1, tie_row ''m11'' 1,
      tie_row ''m12'' 1] \<and>
   ViewIncident db_ties ''a'' = Inr view_ties \<and>
   ReviewerComments view_ties ! 1 = tie_comment ''m6'' 1 \<and>
   ReviewerComments view_ties ! 2 = tie_comment ''m2'' 1 \<and>
   ReviewerComments view_ties ! 6 = tie_comment ''m0'' 1"
  by code_simp

end
